theory Spec2Isabelle
  imports Main "HOL-Library.Sublist"
begin

section \<open>Strings and the JavaScript string primitives the wrapper uses\<close>

text \<open>
  The wrapper (\<open>bin/claude-fixed.js\<close>) works on JavaScript strings. They are modelled
  as \<open>string\<close>; every pattern the code looks for is ASCII.
\<close>

abbreviation ESC :: char where
  "ESC \<equiv> CHR 0x1B"

definition isDigit :: "char \<Rightarrow> bool" where
  "isDigit c = (c \<in> set ''0123456789'')"

text \<open>The character class \<open>[0-9;]\<close> of the SGR pattern.\<close>

definition isParamChar :: "char \<Rightarrow> bool" where
  "isParamChar c = (isDigit c \<or> c = CHR '';'')"

definition digitVal :: "char \<Rightarrow> nat" where
  "digitVal c = of_char c - 48"

text \<open>
  \<open>parseInt(s, 10)\<close> on the strings that reach it here: the decimal value of the leading
  digits, \<open>None\<close> for \<open>NaN\<close> (no leading digit). The pieces the pattern admits carry
  neither sign nor blank. A value too large for a double is rounded by JavaScript, but is
  only ever compared with constants up to 107, which rounding cannot reach.
\<close>

definition parseInt :: "string \<Rightarrow> nat option" where
  "parseInt s =
     (let ds = takeWhile isDigit s
      in if ds = [] then None else Some (foldl (\<lambda>a c. 10 * a + digitVal c) 0 ds))"

text \<open>\<open>s.split(sep)\<close> for a one-character separator: never an empty array.\<close>

fun split :: "char \<Rightarrow> string \<Rightarrow> string list" where
  "split sep [] = [[]]"
| "split sep (c # cs) =
     (if c = sep then [] # split sep cs
      else (case split sep cs of [] \<Rightarrow> [[c]] | p # ps \<Rightarrow> (c # p) # ps))"

text \<open>\<open>xs.join(sep)\<close>.\<close>

fun join :: "char \<Rightarrow> string list \<Rightarrow> string" where
  "join sep [] = []"
| "join sep [x] = x"
| "join sep (x # y # ys) = x @ sep # join sep (y # ys)"

text \<open>\<open>match.slice(2, -1)\<close>: without the first two characters and the last one.\<close>

definition slice2 :: "string \<Rightarrow> string" where
  "slice2 s = butlast (drop 2 s)"

text \<open>Decimal rendering of a number inside a template literal.\<close>

definition digitChar :: "nat \<Rightarrow> char" where
  "digitChar d = char_of (48 + d)"

function showNat :: "nat \<Rightarrow> string" where
  "showNat n = (if n < 10 then [digitChar n] else showNat (n div 10) @ [digitChar (n mod 10)])"
  by pat_completeness auto
termination
  by (relation "measure id") auto

declare showNat.simps [simp del]

text \<open>
  \<open>s.replace(/pat/g, rep)\<close> for a pattern that is a literal, non-empty string: matches
  are found left to right and do not overlap; the replacement is not scanned again.
\<close>

function replaceAll :: "string \<Rightarrow> string \<Rightarrow> string \<Rightarrow> string" where
  "replaceAll pat rep [] = []"
| "replaceAll pat rep (c # cs) =
     (if pat \<noteq> [] \<and> prefix pat (c # cs)
      then rep @ replaceAll pat rep (drop (length pat) (c # cs))
      else c # replaceAll pat rep cs)"
  by pat_completeness auto
termination
  by (relation "measure (\<lambda>(pat, rep, s). length s)") auto

declare replaceAll.simps(2) [simp del]

section \<open>The SGR sanitizer: \<open>stripColors\<close>\<close>

text \<open>\<open>codes[i + k]\<close> where \<open>cs\<close> is \<open>codes\<close> from index \<open>i\<close> on; \<open>None\<close> is \<open>undefined\<close>.\<close>

definition codeAt :: "string list \<Rightarrow> nat \<Rightarrow> string option" where
  "codeAt cs k = (if k < length cs then Some (cs ! k) else None)"

text \<open>Truthiness of \<open>codes[i + k]\<close>: defined and not the empty string.\<close>

definition truthy :: "string option \<Rightarrow> bool" where
  "truthy v = (case v of None \<Rightarrow> False | Some s \<Rightarrow> s \<noteq> [])"

text \<open>\<open>code >= lo && code <= hi\<close>; every comparison with \<open>NaN\<close> is false.\<close>

definition between :: "nat \<Rightarrow> nat \<Rightarrow> nat option \<Rightarrow> bool" where
  "between lo hi code = (case code of None \<Rightarrow> False | Some n \<Rightarrow> lo \<le> n \<and> n \<le> hi)"

text \<open>
  The body of the \<open>while (i < codes.length)\<close> loop of the replace callback. The
  argument is \<open>codes\<close> from index \<open>i\<close> on (never empty inside the loop), so that
  \<open>cs ! k\<close> is \<open>codes[i + k]\<close>; the result is what the branch taken pushes on
  \<open>allowed\<close> and by how much it advances \<open>i\<close>. The branches are in the order of the
  source.
\<close>

definition stepCode :: "string list \<Rightarrow> string list \<times> nat" where
  "stepCode cs =
     (let code = parseInt (cs ! 0) in
      if code = Some 0 then ([''0''], 1)
      else if code = Some 1 \<or> code = Some 3 \<or> code = Some 4 \<or> code = Some 9
        then ([cs ! 0], 1)
      else if code = Some 22 \<or> code = Some 23 \<or> code = Some 24 \<or> code = Some 29
        then ([cs ! 0], 1)
      else if between 30 37 code then ([cs ! 0], 1)
      else if code = Some 39 then ([''39''], 1)
      else if between 90 97 code then ([cs ! 0], 1)
      else if code = Some 38 \<and> codeAt cs 1 = Some ''5'' \<and> truthy (codeAt cs 2)
        then ([''38'', ''5'', cs ! 2], 3)
      else if code = Some 38 \<and> codeAt cs 1 = Some ''2'' \<and> truthy (codeAt cs 4)
        then ([''38'', ''2'', cs ! 2, cs ! 3, cs ! 4], 5)
      else if between 40 49 code \<or> between 100 107 code then ([], 1)
      else if code = Some 48 \<and> codeAt cs 1 = Some ''5'' then ([], 3)
      else if code = Some 48 \<and> codeAt cs 1 = Some ''2'' then ([], 5)
      else if code = Some 2 \<or> code = Some 7 \<or> code = Some 8 \<or> code = Some 27
              \<or> code = Some 28
        then ([], 1)
      else ([], 1))"

lemma stepCode_advances: "0 < snd (stepCode cs)"
  by (simp add: stepCode_def Let_def)

text \<open>
  The loop itself: what it pushes on \<open>allowed\<close> from index \<open>i\<close> on, in order.
\<close>

function filterCodes :: "string list \<Rightarrow> string list" where
  "filterCodes cs =
     (if cs = [] then []
      else (case stepCode cs of (pushed, adv) \<Rightarrow> pushed @ filterCodes (drop adv cs)))"
  by pat_completeness auto
termination
  apply (relation "measure length")
   apply simp
  subgoal for cs pushed adv
    using stepCode_advances [of cs] by (cases cs) (auto simp: snd_def split: prod.splits)
  done

declare filterCodes.simps [simp del]

text \<open>
  The first line of the replace callback:
  \<open>match.slice(2, -1).split(';').filter(c => c !== '')\<close>.
\<close>

definition paramCodes :: "string \<Rightarrow> string list" where
  "paramCodes match = filter (\<lambda>c. c \<noteq> []) (split (CHR '';'') (slice2 match))"

text \<open>
  The replace callback: one match of \<open>/\x1b\[[0-9;]*m/\<close> to its replacement.
\<close>

definition sgrReplace :: "string \<Rightarrow> string" where
  "sgrReplace match =
     (let codes = paramCodes match in
      if length codes = 0 then [ESC, CHR ''[''] @ ''0m''
      else let allowed = filterCodes codes in
        if length allowed = 0 then []
        else [ESC, CHR ''[''] @ join (CHR '';'') allowed @ ''m'')"

text \<open>
  A match of \<open>/\x1b\[[0-9;]*m/\<close> at the start of the string: the matched text and what
  follows it. The class \<open>[0-9;]*\<close> is greedy and \<open>m\<close> is not in it, so there is a match
  exactly when the longest run of parameter characters is followed by \<open>m\<close>.
\<close>

definition matchSgr :: "string \<Rightarrow> (string \<times> string) option" where
  "matchSgr s =
     (case s of
        e # b # t \<Rightarrow>
          if e = ESC \<and> b = CHR ''['' then
            (case dropWhile isParamChar t of
               m # after \<Rightarrow>
                 if m = CHR ''m''
                 then Some ([ESC, CHR ''[''] @ takeWhile isParamChar t @ ''m'', after)
                 else None
             | [] \<Rightarrow> None)
          else None
      | _ \<Rightarrow> None)"

lemma matchSgr_shorter: "matchSgr s = Some (tok, after) \<Longrightarrow> length after < length s"
proof -
  assume m: "matchSgr s = Some (tok, after)"
  then obtain t x where s: "s = ESC # CHR ''['' # t" and d: "dropWhile isParamChar t = x # after"
    by (auto simp: matchSgr_def split: list.splits if_splits)
  have "length (dropWhile isParamChar t) \<le> length t"
    by (rule length_dropWhile_le)
  with s d show ?thesis by simp
qed

text \<open>
  \<open>stripColors(data)\<close>: the global replace scans left to right; where the pattern matches
  the callback's result is emitted and the scan goes on after the match, elsewhere the
  character is copied.
\<close>

function stripColors :: "string \<Rightarrow> string" where
  "stripColors [] = []"
| "stripColors (c # cs) =
     (case matchSgr (c # cs) of
        Some (tok, after) \<Rightarrow> sgrReplace tok @ stripColors after
      | None \<Rightarrow> c # stripColors cs)"
  by pat_completeness auto
termination
  by (relation "measure length") (auto dest: matchSgr_shorter)


section \<open>The PTY session: environment, geometry and the flush pipeline\<close>

text \<open>
  What the handlers of the PTY session read from outside: the configuration, the
  environment variables, the platform and the size of the real terminal.
  \<open>stdoutRows\<close> and \<open>stdoutColumns\<close> are \<open>process.stdout.rows\<close> and
  \<open>process.stdout.columns\<close>, \<open>None\<close> when they are \<open>undefined\<close>.
\<close>

record env =
  colorStripping :: bool
  stripBgEnv :: bool
  isAppleTerminal :: bool
  isMac :: bool
  showFooter :: bool
  sshMode :: bool
  specmemActive :: bool
  stdoutRows :: "nat option"
  stdoutColumns :: "nat option"

text \<open>\<open>const footerRows = specmemActive ? 3 : 1\<close>.\<close>

definition footerRows :: "env \<Rightarrow> nat" where
  "footerRows e = (if specmemActive e then 3 else 1)"

text \<open>\<open>x || dflt\<close> on a number that may be \<open>undefined\<close>: 0 is falsy as well.\<close>

definition orElse :: "nat option \<Rightarrow> nat \<Rightarrow> nat" where
  "orElse x dflt = (case x of None \<Rightarrow> dflt | Some n \<Rightarrow> if n = 0 then dflt else n)"

text \<open>\<open>process.stdout.rows || 24\<close>, the full height of the terminal.\<close>

definition termRows :: "env \<Rightarrow> nat" where
  "termRows e = orElse (stdoutRows e) 24"

definition termCols :: "env \<Rightarrow> nat" where
  "termCols e = orElse (stdoutColumns e) 80"

text \<open>
  \<open>Math.max(1, (process.stdout.rows || 24) - footerRows)\<close>: the closure
  \<open>contentRows\<close> and the local constant of \<open>setupScrollRegion\<close> are this expression.
\<close>

definition contentRows :: "env \<Rightarrow> nat" where
  "contentRows e = nat (max 1 (int (termRows e) - int (footerRows e)))"

text \<open>The control sequences the wrapper writes and looks for.\<close>

definition csiR :: string where
  "csiR = [ESC] @ ''[r''"

text \<open>\<open>`\x1b[1;${n}r`\<close>: the scroll region from row 1 to row \<open>n\<close>.\<close>

definition region :: "nat \<Rightarrow> string" where
  "region n = [ESC] @ ''[1;'' @ showNat n @ ''r''"

definition clearScreen :: string where
  "clearScreen = [ESC] @ ''[2J''"

definition clearScrollback :: string where
  "clearScrollback = [ESC] @ ''[3J''"

definition cursorHome :: string where
  "cursorHome = [ESC] @ ''[H''"

definition saveCursor :: string where
  "saveCursor = [ESC] @ ''7''"

definition restoreCursor :: string where
  "restoreCursor = [ESC] @ ''8''"

text \<open>\<open>s.includes(pat)\<close>.\<close>

fun includesStr :: "string \<Rightarrow> string \<Rightarrow> bool" where
  "includesStr pat [] = (pat = [])"
| "includesStr pat (c # cs) = (prefix pat (c # cs) \<or> includesStr pat cs)"

text \<open>
  \<open>setupScrollRegion\<close>: what it writes to the real terminal and the size it gives the
  PTY (columns, rows).
\<close>

definition setupScrollRegion :: "env \<Rightarrow> string list \<times> (nat \<times> nat)" where
  "setupScrollRegion e =
     (let rows = termRows e; cols = termCols e in
      if sshMode e \<or> \<not> showFooter e then ([], (cols, rows))
      else ([csiR @ saveCursor @ region (contentRows e) @ restoreCursor],
            (cols, contentRows e)))"

text \<open>
  The steps of \<open>processAndFlush\<close> on the buffered output, in the order of the source.
  First the sanitizer, when \<open>shouldStrip\<close>.
\<close>

definition shouldStrip :: "env \<Rightarrow> bool" where
  "shouldStrip e = (colorStripping e \<and> stripBgEnv e \<and> \<not> isAppleTerminal e)"

definition stripStep :: "env \<Rightarrow> string \<Rightarrow> string" where
  "stripStep e output = (if shouldStrip e then stripColors output else output)"

text \<open>Then the scroll region resets are replaced by the constrained region.\<close>

definition rewriteRegion :: "env \<Rightarrow> string \<Rightarrow> string" where
  "rewriteRegion e output =
     (if showFooter e \<and> \<not> sshMode e then
        (let cr = contentRows e;
             output1 = replaceAll csiR (region cr) output;
             fullRows = termRows e
         in replaceAll (region fullRows) (region cr) output1)
      else output)"

text \<open>Then a scrollback clear follows every full screen clear, except on macOS.\<close>

definition injectScrollbackClear :: "env \<Rightarrow> string \<Rightarrow> string" where
  "injectScrollbackClear e output =
     (if \<not> isMac e then
        (if includesStr clearScreen output
         then replaceAll clearScreen (clearScreen @ clearScrollback) output
         else output)
      else output)"

text \<open>Last, once per session, the startup clear is put in front.\<close>

definition startupPrefix :: "env \<Rightarrow> bool \<Rightarrow> string" where
  "startupPrefix e startupCleared =
     (if \<not> isMac e \<and> \<not> startupCleared then clearScreen @ clearScrollback @ cursorHome
      else [])"

definition flushBody :: "env \<Rightarrow> string \<Rightarrow> string" where
  "flushBody e output = injectScrollbackClear e (rewriteRegion e (stripStep e output))"

text \<open>What \<open>processAndFlush\<close> writes for the buffered output.\<close>

definition flushOutput :: "env \<Rightarrow> bool \<Rightarrow> string \<Rightarrow> string" where
  "flushOutput e startupCleared output = startupPrefix e startupCleared @ flushBody e output"

section \<open>The PTY session: state and handlers\<close>

text \<open>
  The part of the PTY session that buffers and flushes the output of the wrapped process,
  forwards the keyboard, follows resizes and cleans up at the end. The size of the
  terminal is the one of the environment throughout. The CPU limiter and the raw mode of
  the keyboard are left out.

  One write to the real terminal: a text written as it is (\<open>Raw\<close>: a flush, the rest
  of the buffer and the teardown sequence at cleanup), the write of
  \<open>setupScrollRegion\<close>, a draw of the footer, the exit banner. The text of the footer and
  of the exit banner depends on the width of the terminal only and is not spelled out.
\<close>

datatype twrite = Raw string | SetRegion string | FooterDraw | ExitBanner

text \<open>
  The signals for which the session registers \<open>cleanupAndKill\<close>. SIGWINCH has a handler
  of its own; no other signal has one.
\<close>

datatype termSignal = SIGINT | SIGTERM | SIGHUP

text \<open>
  The variables of the PTY session that the handlers share. A timer is the time at which
  it is due, \<open>None\<close> when it is not pending. \<open>stdout\<close> is the list of writes to the real
  terminal, \<open>ptyInput\<close> the list of writes to the wrapped process, \<open>killed\<close> the signals
  sent to it, \<open>opened\<close> the number of calls of \<open>openWebsite\<close>, \<open>exited\<close> the code given
  to \<open>process.exit\<close>, \<open>ptyResizes\<close> the sizes (columns, rows) given to
  \<open>ptyProcess.resize\<close>.

  The three intervals (\<open>footerInterval\<close>, \<open>memCheckInterval\<close>, \<open>gcInterval\<close>) are
  modelled by whether a handler has stopped them with \<open>clearInterval\<close>. Whether an
  interval was started depends on the environment (the footer's only when the footer is
  shown and the session is not remote, the collector's only when the runtime exposes it),
  and what its callback does every few seconds (a draw of the footer, a warning on
  stderr, a garbage collection) is not in the model.
\<close>

record session =
  outputBuffer :: string
  flushTimer :: "nat option"
  pendingDraw :: "nat option"
  exiting :: bool
  startupCleared :: bool
  lastFullRenderTime :: nat
  stdout :: "twrite list"
  ptyInput :: "string list"
  killed :: "termSignal list"
  opened :: nat
  exited :: "nat option"
  resizeTimeout :: "nat option"
  footerIntervalStopped :: bool
  memCheckIntervalStopped :: bool
  gcIntervalStopped :: bool
  ptyResizes :: "(nat \<times> nat) list"

text \<open>
  The session when its handlers are registered. What the setup code has done before (the
  first \<open>setupScrollRegion\<close> and the first draw of the footer) is not in the lists.
\<close>

definition init :: session where
  "init = \<lparr> outputBuffer = [], flushTimer = None, pendingDraw = None, exiting = False,
            startupCleared = False, lastFullRenderTime = 0, stdout = [], ptyInput = [],
            killed = [], opened = 0, exited = None, resizeTimeout = None,
            footerIntervalStopped = False, memCheckIntervalStopped = False,
            gcIntervalStopped = False, ptyResizes = [] \<rparr>"

definition FLUSH_DELAY_MS :: nat where
  "FLUSH_DELAY_MS = 16"

definition COALESCE_DELAY_MS :: nat where
  "COALESCE_DELAY_MS = 80"

definition DEBOUNCE_MS :: nat where
  "DEBOUNCE_MS = 32"

definition RESIZE_DEBOUNCE_MS :: nat where
  "RESIZE_DEBOUNCE_MS = 50"

text \<open>\<open>drawFooter\<close>, and the callback of the timer \<open>pendingDraw\<close>.\<close>

definition drawFooter :: "env \<Rightarrow> session \<Rightarrow> session" where
  "drawFooter e s = (if sshMode e then s else s\<lparr>stdout := stdout s @ [FooterDraw]\<rparr>)"

definition pendingDrawFires :: "env \<Rightarrow> session \<Rightarrow> session" where
  "pendingDrawFires e s = drawFooter e (s\<lparr>pendingDraw := None\<rparr>)"

text \<open>\<open>scheduleFooterDraw\<close> at time \<open>now\<close>: a pending draw is replaced.\<close>

definition scheduleFooterDraw :: "nat \<Rightarrow> session \<Rightarrow> session" where
  "scheduleFooterDraw now s = s\<lparr>pendingDraw := Some (now + DEBOUNCE_MS)\<rparr>"

text \<open>\<open>processAndFlush\<close>, the callback of the flush timer, run at time \<open>now\<close>.\<close>

definition processAndFlush :: "env \<Rightarrow> nat \<Rightarrow> session \<Rightarrow> session" where
  "processAndFlush e now s =
     (let s1 = s\<lparr>flushTimer := None\<rparr> in
      if outputBuffer s1 = [] \<or> exiting s1 then s1
      else
        (let output = flushOutput e (startupCleared s1) (outputBuffer s1);
             s2 = s1\<lparr>outputBuffer := [],
                     startupCleared := (if \<not> isMac e \<and> \<not> startupCleared s1 then True
                                        else startupCleared s1),
                     stdout := stdout s1 @ [Raw output]\<rparr>
         in if showFooter e then scheduleFooterDraw now s2 else s2))"

text \<open>The handler \<open>ptyProcess.onData\<close>, with \<open>Date.now() = now\<close>.\<close>

definition onData :: "nat \<Rightarrow> string \<Rightarrow> session \<Rightarrow> session" where
  "onData now data s =
     (if exiting s then s
      else
        (let recentFullRender = (int now - int (lastFullRenderTime s) < 200);
             delay = (if recentFullRender then COALESCE_DELAY_MS else FLUSH_DELAY_MS)
         in s\<lparr>outputBuffer := outputBuffer s @ data, flushTimer := Some (now + delay)\<rparr>))"

text \<open>The handler of \<open>process.stdin.on('data')\<close>.\<close>

definition stdinData :: "string \<Rightarrow> session \<Rightarrow> session" where
  "stdinData str s =
     (if str = [ESC] @ ''[72;6u'' \<or> str = [ESC] @ ''[104;6u'' \<or> str = [CHR 0x08]
      then s\<lparr>opened := opened s + 1\<rparr>
      else s\<lparr>ptyInput := ptyInput s @ [str]\<rparr>)"

text \<open>
  \<open>setupScrollRegion\<close> as the handlers run it: its write and its call of
  \<open>ptyProcess.resize\<close>.
\<close>

definition runSetupScrollRegion :: "env \<Rightarrow> session \<Rightarrow> session" where
  "runSetupScrollRegion e s =
     (case setupScrollRegion e of
        (writes, dims) \<Rightarrow>
          s\<lparr>stdout := stdout s @ map SetRegion writes, ptyResizes := ptyResizes s @ [dims]\<rparr>)"

text \<open>The handler of \<open>process.stdout.on('resize')\<close>.\<close>

definition onStdoutResize :: "env \<Rightarrow> session \<Rightarrow> session" where
  "onStdoutResize e s =
     (let s1 = runSetupScrollRegion e s in if showFooter e then drawFooter e s1 else s1)"

text \<open>The handler of SIGWINCH at time \<open>now\<close>: a pending resize is replaced.\<close>

definition onSigwinch :: "nat \<Rightarrow> session \<Rightarrow> session" where
  "onSigwinch now s = s\<lparr>resizeTimeout := Some (now + RESIZE_DEBOUNCE_MS)\<rparr>"

text \<open>
  The callback of the timer \<open>resizeTimeout\<close>. In a remote session it draws the footer
  through one more timer of 50 ms; \<open>drawFooter\<close> does nothing in a remote session, so
  that timer is not modelled.
\<close>

definition resizeTimeoutFires :: "env \<Rightarrow> session \<Rightarrow> session" where
  "resizeTimeoutFires e s =
     (let s1 = runSetupScrollRegion e (s\<lparr>resizeTimeout := None\<rparr>)
      in if showFooter e then drawFooter e s1 else s1)"

text \<open>
  What \<open>ptyProcess.onExit\<close> and \<open>cleanupAndKill\<close> write: what is left in the buffer
  as it is, the reset of the terminal (when the footer is shown and the session is not
  remote) and the banner. Both clear the flush timer, the pending draw of the footer and
  the footer interval; \<open>onExit\<close> also clears the two monitor intervals; neither clears
  \<open>resizeTimeout\<close>.
\<close>

definition teardownSeq :: string where
  "teardownSeq = csiR @ clearScreen @ clearScrollback @ cursorHome"

definition cleanupWrites :: "env \<Rightarrow> session \<Rightarrow> twrite list" where
  "cleanupWrites e s =
     (if outputBuffer s \<noteq> [] then [Raw (outputBuffer s)] else [])
     @ (if \<not> sshMode e \<and> showFooter e then [Raw teardownSeq] else [])
     @ [ExitBanner]"

definition onExit :: "env \<Rightarrow> nat \<Rightarrow> session \<Rightarrow> session" where
  "onExit e exitCode s =
     s\<lparr>exiting := True, footerIntervalStopped := True, memCheckIntervalStopped := True,
       gcIntervalStopped := True, pendingDraw := None, flushTimer := None,
       outputBuffer := [], stdout := stdout s @ cleanupWrites e s,
       exited := Some exitCode\<rparr>"

definition cleanupAndKill :: "env \<Rightarrow> termSignal \<Rightarrow> session \<Rightarrow> session" where
  "cleanupAndKill e signal s =
     s\<lparr>exiting := True, footerIntervalStopped := True, pendingDraw := None,
       flushTimer := None, outputBuffer := [], stdout := stdout s @ cleanupWrites e s,
       killed := killed s @ [signal]\<rparr>"

text \<open>
  The timers. Before an event at time \<open>t\<close> is handled, the timers that are due by then
  have fired, the earlier first. First the two timers of the output: a footer draw that
  is due no later than the flush, the flush at its own time, and the footer draw that is
  due after it (the one the flush has scheduled, which replaces any other).
\<close>

definition fireDraw :: "env \<Rightarrow> nat \<Rightarrow> session \<Rightarrow> session" where
  "fireDraw e t s =
     (case pendingDraw s of
        None \<Rightarrow> s
      | Some p \<Rightarrow> if p \<le> t then pendingDrawFires e s else s)"

definition fireFlush :: "env \<Rightarrow> nat \<Rightarrow> session \<Rightarrow> session" where
  "fireFlush e t s =
     (case flushTimer s of
        None \<Rightarrow> s
      | Some d \<Rightarrow> if d \<le> t then processAndFlush e d s else s)"

definition fireOutputTimers :: "env \<Rightarrow> nat \<Rightarrow> session \<Rightarrow> session" where
  "fireOutputTimers e t s =
     (let firstDraw = (case flushTimer s of None \<Rightarrow> t | Some d \<Rightarrow> min t d)
      in fireDraw e t (fireFlush e t (fireDraw e firstDraw s)))"

text \<open>
  All timers: a resize that is due fires at its own time, after the timers of the output
  that are due by then and before those that are due later.
\<close>

definition advance :: "env \<Rightarrow> nat \<Rightarrow> session \<Rightarrow> session" where
  "advance e t s =
     (case resizeTimeout s of
        None \<Rightarrow> fireOutputTimers e t s
      | Some r \<Rightarrow>
          if r \<le> t
          then fireOutputTimers e t (resizeTimeoutFires e (fireOutputTimers e r s))
          else fireOutputTimers e t s)"

text \<open>
  The events of a session, each with the time at which it happens: data from the wrapped
  process, data from the keyboard, one of the three signals of \<open>cleanupAndKill\<close>, the
  exit of the wrapped process, SIGWINCH, the \<open>resize\<close> event of the terminal, and
  \<open>Tick\<close>, time passing with nothing else happening. After \<open>process.exit\<close> nothing
  runs any more.
\<close>

datatype event =
  PtyData string | StdinData string | Signal termSignal | PtyExit nat | Sigwinch
  | StdoutResize | Tick

fun handle :: "env \<Rightarrow> session \<Rightarrow> nat \<times> event \<Rightarrow> session" where
  "handle e s (now, ev) =
     (if exited s \<noteq> None then s
      else
        (let s1 = advance e now s in
         case ev of
           PtyData d \<Rightarrow> onData now d s1
         | StdinData d \<Rightarrow> stdinData d s1
         | Signal sig \<Rightarrow> cleanupAndKill e sig s1
         | PtyExit code \<Rightarrow> onExit e code s1
         | Sigwinch \<Rightarrow> onSigwinch now s1
         | StdoutResize \<Rightarrow> onStdoutResize e s1
         | Tick \<Rightarrow> s1))"

definition run :: "env \<Rightarrow> (nat \<times> event) list \<Rightarrow> session \<Rightarrow> session" where
  "run e evs s = foldl (handle e) s evs"

section \<open>Vocabulary of the session's properties\<close>

text \<open>The flushed and raw texts among the writes to the terminal, in order.\<close>

fun contentWrites :: "twrite list \<Rightarrow> string list" where
  "contentWrites [] = []"
| "contentWrites (Raw x # ws) = x # contentWrites ws"
| "contentWrites (w # ws) = contentWrites ws"

text \<open>How often the exit banner was drawn.\<close>

definition banners :: "twrite list \<Rightarrow> nat" where
  "banners ws = length (filter (\<lambda>w. w = ExitBanner) ws)"




text \<open>
  Two states that differ at most in the footer and the resize: their pending timers, the
  footer draws and region writes among the writes, and the sizes given to the PTY.
\<close>

definition quiet :: "session \<Rightarrow> session \<Rightarrow> bool" where
  "quiet s s' =
     (outputBuffer s' = outputBuffer s \<and> flushTimer s' = flushTimer s \<and> exiting s' = exiting s
      \<and> startupCleared s' = startupCleared s \<and> lastFullRenderTime s' = lastFullRenderTime s
      \<and> ptyInput s' = ptyInput s \<and> killed s' = killed s \<and> opened s' = opened s
      \<and> exited s' = exited s
      \<and> footerIntervalStopped s' = footerIntervalStopped s
      \<and> memCheckIntervalStopped s' = memCheckIntervalStopped s
      \<and> gcIntervalStopped s' = gcIntervalStopped s
      \<and> contentWrites (stdout s') = contentWrites (stdout s)
      \<and> banners (stdout s') = banners (stdout s))"

text \<open>What no timer changes.\<close>

definition kept :: "session \<Rightarrow> session \<Rightarrow> bool" where
  "kept s s' =
     (ptyInput s' = ptyInput s \<and> opened s' = opened s \<and> killed s' = killed s
      \<and> exited s' = exited s \<and> lastFullRenderTime s' = lastFullRenderTime s
      \<and> footerIntervalStopped s' = footerIntervalStopped s
      \<and> memCheckIntervalStopped s' = memCheckIntervalStopped s
      \<and> gcIntervalStopped s' = gcIntervalStopped s
      \<and> banners (stdout s') = banners (stdout s))"

text \<open>A region token without its first character.\<close>

definition regionTail :: "nat \<Rightarrow> string" where
  "regionTail n = ''[1;'' @ showNat n @ ''r''"

text \<open>
  Two environments for the examples: a local Linux terminal of 24 rows with the sanitizer
  and the footer enabled, and the same over SSH.
\<close>

definition exampleEnv :: env where
  "exampleEnv = \<lparr> colorStripping = True, stripBgEnv = True, isAppleTerminal = False,
     isMac = False, showFooter = True, sshMode = False, specmemActive = False,
     stdoutRows = Some 24, stdoutColumns = Some 80 \<rparr>"

definition remoteEnv :: env where
  "remoteEnv = exampleEnv\<lparr>sshMode := True\<rparr>"

section \<open>Vocabulary of the sanitizer's properties\<close>

text \<open>
  A rendition token \<open>CSI <params> m\<close>: what the pattern \<open>/\x1b\[[0-9;]*m/\<close> matches
  as a whole.
\<close>

definition isSgrToken :: "string \<Rightarrow> bool" where
  "isSgrToken s =
     (3 \<le> length s \<and> take 2 s = [ESC, CHR ''[''] \<and> last s = CHR ''m''
      \<and> list_all isParamChar (slice2 s))"

text \<open>The token \<open>CSI <params> m\<close> with the given parameter text.\<close>

definition csiM :: "string \<Rightarrow> string" where
  "csiM params = [ESC, CHR ''[''] @ params @ ''m''"

text \<open>
  The codes a parameter list carries, read as a terminal reads it: a 38 or 48 followed by
  \<open>5;N\<close> or by \<open>2;R;G;B\<close> is one colour code with its arguments, and the arguments are
  not codes of their own.
\<close>

function sgrCodes :: "string list \<Rightarrow> nat list" where
  "sgrCodes [] = []"
| "sgrCodes (c # rest) =
     (case parseInt c of
        None \<Rightarrow> sgrCodes rest
      | Some n \<Rightarrow>
          if (n = 38 \<or> n = 48) \<and> map parseInt (take 1 rest) = [Some 5] \<and> 2 \<le> length rest
            then n # sgrCodes (drop 2 rest)
          else if (n = 38 \<or> n = 48) \<and> map parseInt (take 1 rest) = [Some 2] \<and> 4 \<le> length rest
            then n # sgrCodes (drop 4 rest)
          else n # sgrCodes rest)"
  by pat_completeness auto
termination
  by (relation "measure length") auto

text \<open>Background colours (40-49, 100-107), dim (2), inverse (7) and hidden (8).\<close>

definition unsafeCode :: "nat \<Rightarrow> bool" where
  "unsafeCode n = (n = 2 \<or> n = 7 \<or> n = 8 \<or> (40 \<le> n \<and> n \<le> 49) \<or> (100 \<le> n \<and> n \<le> 107))"

text \<open>The single codes the loop keeps as they are written.\<close>

definition keptSingle :: "nat \<Rightarrow> bool" where
  "keptSingle n =
     (n = 1 \<or> n = 3 \<or> n = 4 \<or> n = 9 \<or> n = 22 \<or> n = 23 \<or> n = 24 \<or> n = 29
      \<or> (30 \<le> n \<and> n \<le> 37) \<or> (90 \<le> n \<and> n \<le> 97))"

text \<open>One piece of a parameter list: a non-empty run of digits.\<close>

definition paramPiece :: "string \<Rightarrow> bool" where
  "paramPiece p = (p \<noteq> [] \<and> list_all isDigit p)"

section \<open>Lemmas on the sanitizer\<close>

lemma parseInt_lits [simp]:
  "parseInt ''0'' = Some 0" "parseInt ''39'' = Some 39" "parseInt ''38'' = Some 38"
  "parseInt ''5'' = Some 5" "parseInt ''2'' = Some 2"
  by (simp_all add: parseInt_def isDigit_def digitVal_def)

lemma between_Some [simp]: "between lo hi (Some n) = (lo \<le> n \<and> n \<le> hi)"
  by (simp add: between_def)

lemma between_None [simp]: "between lo hi None = False"
  by (simp add: between_def)

lemma codeAt_Cons_0 [simp]: "codeAt (c # cs) 0 = Some c"
  by (simp add: codeAt_def)

lemma codeAt_Nil [simp]: "codeAt [] k = None"
  by (simp add: codeAt_def)

lemma codeAt_numeral [simp]: "codeAt (c # cs) (numeral n) = codeAt cs (pred_numeral n)"
  by (simp add: codeAt_def numeral_eq_Suc)

lemma codeAt_Suc [simp]: "codeAt (c # cs) (Suc n) = codeAt cs n"
  by (simp add: codeAt_def)

lemma codeAt_1 [simp]: "codeAt (c # cs) 1 = codeAt cs 0"
  by (simp add: codeAt_def)

lemma truthy_simps [simp]: "truthy None = False" "truthy (Some s) = (s \<noteq> [])"
  by (simp_all add: truthy_def)

lemma filterCodes_Nil [simp]: "filterCodes [] = []"
  by (simp add: filterCodes.simps)

lemma filterCodes_step:
  "stepCode (c # cs) = (pushed, adv) \<Longrightarrow> filterCodes (c # cs) = pushed @ filterCodes (drop adv (c # cs))"
  by (subst filterCodes.simps) simp

lemma stepCode_cases:
  obtains
    (zero) "parseInt c = Some 0" "stepCode (c # rest) = ([''0''], 1)"
  | (single) n where "parseInt c = Some n" "keptSingle n" "stepCode (c # rest) = ([c], 1)"
  | (dflt) "parseInt c = Some 39" "stepCode (c # rest) = ([''39''], 1)"
  | (c256) x rest' where "parseInt c = Some 38" "rest = ''5'' # x # rest'" "x \<noteq> []"
      "stepCode (c # rest) = ([''38'', ''5'', x], 3)"
  | (rgb) r g b rest' where "parseInt c = Some 38" "rest = ''2'' # r # g # b # rest'" "b \<noteq> []"
      "stepCode (c # rest) = ([''38'', ''2'', r, g, b], 5)"
  | (skip) adv where "0 < adv" "stepCode (c # rest) = ([], adv)"
proof (cases "parseInt c")
  case None
  then have "stepCode (c # rest) = ([], 1)"
    by (simp add: stepCode_def Let_def)
  then show ?thesis using skip by simp
next
  case (Some n)
  consider "n = 0" | "keptSingle n" | "n = 39" | "n = 38"
    | "n \<noteq> 0" "\<not> keptSingle n" "n \<noteq> 39" "n \<noteq> 38"
    by blast
  then show ?thesis
  proof cases
    case 1
    with Some show ?thesis using zero by (simp add: stepCode_def Let_def)
  next
    case 2
    have "stepCode (c # rest) = ([c], 1)"
      using 2 Some unfolding keptSingle_def
      by (elim disjE) (simp_all add: stepCode_def Let_def between_Some)
    with Some 2 show ?thesis using single by blast
  next
    case 3
    with Some show ?thesis using dflt by (simp add: stepCode_def Let_def)
  next
    case 4
    show ?thesis
    proof (cases "codeAt (c # rest) 1 = Some ''5'' \<and> truthy (codeAt (c # rest) 2)")
      case True
      then obtain x rest' where r: "rest = ''5'' # x # rest'" "x \<noteq> []"
        by (cases rest; cases "tl rest") (auto simp: codeAt_def)
      with Some 4 have "stepCode (c # rest) = ([''38'', ''5'', x], 3)"
        by (simp add: stepCode_def Let_def)
      with Some 4 r show ?thesis using c256 by blast
    next
      case no5: False
      show ?thesis
      proof (cases "codeAt (c # rest) 1 = Some ''2'' \<and> truthy (codeAt (c # rest) 4)")
        case True
        then obtain r g b rest' where r: "rest = ''2'' # r # g # b # rest'" "b \<noteq> []"
          by (cases rest; cases "tl rest"; cases "tl (tl rest)"; cases "tl (tl (tl rest))")
             (auto simp: codeAt_def)
        with Some 4 have "stepCode (c # rest) = ([''38'', ''2'', r, g, b], 5)"
          by (simp add: stepCode_def Let_def)
        with Some 4 r show ?thesis using rgb by blast
      next
        case False
        with no5 Some 4 have "stepCode (c # rest) = ([], 1)"
          by (simp add: stepCode_def Let_def)
        then show ?thesis using skip by simp
      qed
    qed
  next
    case 5
    have neg: "parseInt c \<noteq> Some 0" "parseInt c \<noteq> Some 1" "parseInt c \<noteq> Some (Suc 0)" "parseInt c \<noteq> Some 3"
      "parseInt c \<noteq> Some 4" "parseInt c \<noteq> Some 9" "parseInt c \<noteq> Some 22"
      "parseInt c \<noteq> Some 23" "parseInt c \<noteq> Some 24" "parseInt c \<noteq> Some 29"
      "\<not> between 30 37 (parseInt c)" "parseInt c \<noteq> Some 39"
      "\<not> between 90 97 (parseInt c)" "parseInt c \<noteq> Some 38"
      using Some 5 by (simp_all add: keptSingle_def between_Some)
    have "fst (stepCode (c # rest)) = []"
      by (simp add: stepCode_def Let_def neg)
    then have "stepCode (c # rest) = ([], snd (stepCode (c # rest)))"
      by (metis prod.collapse)
    then show ?thesis using skip stepCode_advances by blast
  qed
qed

lemma stepCode_zero [simp]: "stepCode (''0'' # ys) = ([''0''], 1)"
  by (simp add: stepCode_def Let_def)

lemma stepCode_dflt [simp]: "stepCode (''39'' # ys) = ([''39''], 1)"
  by (simp add: stepCode_def Let_def)

lemma stepCode_single:
  assumes "parseInt c = Some n" and "keptSingle n"
  shows "stepCode (c # ys) = ([c], 1)"
  using assms(2,1) unfolding keptSingle_def
  by (elim disjE) (simp_all add: stepCode_def Let_def between_Some)

lemma stepCode_c256 [simp]: "x \<noteq> [] \<Longrightarrow> stepCode (''38'' # ''5'' # x # ys) = ([''38'', ''5'', x], 3)"
  by (simp add: stepCode_def Let_def between_Some)

lemma stepCode_rgb [simp]: "b \<noteq> [] \<Longrightarrow> stepCode (''38'' # ''2'' # r # g # b # ys) = ([''38'', ''2'', r, g, b], 5)"
  by (simp add: stepCode_def Let_def between_Some)


lemma filterCodes_idem: "filterCodes (filterCodes cs) = filterCodes cs"
proof (induction "length cs" arbitrary: cs rule: less_induct)
  case less
  show ?case
  proof (cases cs)
    case Nil
    then show ?thesis by simp
  next
    case (Cons c rest)
    have IH: "\<And>k. 0 < k \<Longrightarrow> filterCodes (filterCodes (drop k cs)) = filterCodes (drop k cs)"
      using less Cons by simp
    show ?thesis
    proof (cases c rest rule: stepCode_cases)
      case zero
      have "filterCodes cs = ''0'' # filterCodes rest"
        using filterCodes_step [OF zero(2)] Cons by simp
      moreover have "filterCodes (''0'' # filterCodes rest) = ''0'' # filterCodes (filterCodes rest)"
        using filterCodes_step [OF stepCode_zero] by simp
      ultimately show ?thesis using IH [of 1] Cons by simp
    next
      case (single n)
      have "filterCodes cs = c # filterCodes rest"
        using filterCodes_step [OF single(3)] Cons by simp
      moreover have "filterCodes (c # filterCodes rest) = c # filterCodes (filterCodes rest)"
        using filterCodes_step [OF stepCode_single [OF single(1,2)]] by simp
      ultimately show ?thesis using IH [of 1] Cons by simp
    next
      case dflt
      have "filterCodes cs = ''39'' # filterCodes rest"
        using filterCodes_step [OF dflt(2)] Cons by simp
      moreover have "filterCodes (''39'' # filterCodes rest) = ''39'' # filterCodes (filterCodes rest)"
        using filterCodes_step [OF stepCode_dflt] by simp
      ultimately show ?thesis using IH [of 1] Cons by simp
    next
      case (c256 x rest')
      have "filterCodes cs = ''38'' # ''5'' # x # filterCodes rest'"
        using filterCodes_step [OF c256(4)] c256(2) Cons by simp
      moreover have "filterCodes (''38'' # ''5'' # x # filterCodes rest')
          = ''38'' # ''5'' # x # filterCodes (filterCodes rest')"
        using filterCodes_step [OF stepCode_c256 [OF c256(3)]] by simp
      ultimately show ?thesis using IH [of 3] Cons c256(2) by simp
    next
      case (rgb r g b rest')
      have "filterCodes cs = ''38'' # ''2'' # r # g # b # filterCodes rest'"
        using filterCodes_step [OF rgb(4)] rgb(2) Cons by simp
      moreover have "filterCodes (''38'' # ''2'' # r # g # b # filterCodes rest')
          = ''38'' # ''2'' # r # g # b # filterCodes (filterCodes rest')"
        using filterCodes_step [OF stepCode_rgb [OF rgb(3)]] by simp
      ultimately show ?thesis using IH [of 5] Cons rgb(2) by simp
    next
      case (skip adv)
      have "filterCodes cs = filterCodes (drop adv cs)"
        using filterCodes_step [OF skip(2)] Cons by simp
      then show ?thesis using IH [of adv] skip(1) by simp
    qed
  qed
qed

lemma split_ne [simp]: "split sep s \<noteq> []"
  by (induction s) (auto split: list.splits)

lemma split_pieces: "p \<in> set (split sep s) \<Longrightarrow> sep \<notin> set p \<and> set p \<subseteq> set s"
proof (induction s arbitrary: p)
  case Nil
  then show ?case by simp
next
  case (Cons c cs)
  show ?case
  proof (cases "split sep cs")
    case Nil
    then show ?thesis by simp
  next
    case (Cons a list)
    have a: "sep \<notin> set a \<and> set a \<subseteq> set cs"
      using Cons.IH [of a] Cons by simp
    have l: "\<And>q. q \<in> set list \<Longrightarrow> sep \<notin> set q \<and> set q \<subseteq> set cs"
      using Cons.IH Cons by simp
    from Cons.prems Cons consider "c = sep" "p = [] \<or> p = a \<or> p \<in> set list"
      | "c \<noteq> sep" "p = c # a \<or> p \<in> set list"
      by (auto split: if_splits)
    then show ?thesis
    proof cases
      case 1
      then show ?thesis using a l by auto
    next
      case 2
      then show ?thesis using a l by auto
    qed
  qed
qed

lemma split_append_sep:
  "sep \<notin> set x \<Longrightarrow> split sep (x @ sep # r) = x # split sep r"
  by (induction x) auto

lemma split_no_sep: "sep \<notin> set x \<Longrightarrow> split sep x = [x]"
  by (induction x) auto

lemma split_join:
  "xs \<noteq> [] \<Longrightarrow> \<forall>p \<in> set xs. sep \<notin> set p \<Longrightarrow> split sep (join sep xs) = xs"
  by (induction sep xs rule: join.induct) (auto simp: split_append_sep split_no_sep)

lemma set_join: "set (join sep xs) \<subseteq> insert sep (\<Union>(set ` set xs))"
  by (induction sep xs rule: join.induct) auto

lemma isSgrToken_csiM: "isSgrToken (csiM body) = list_all isParamChar body"
  by (simp add: isSgrToken_def csiM_def slice2_def)

lemma isSgrToken_obtain:
  assumes "isSgrToken t"
  obtains body where "t = csiM body" "list_all isParamChar body"
proof -
  from assms have l: "3 \<le> length t" and h: "take 2 t = [ESC, CHR ''['']" and e: "last t = CHR ''m''"
    and b: "list_all isParamChar (slice2 t)"
    by (simp_all add: isSgrToken_def)
  have "t = take 2 t @ drop 2 t" by simp
  moreover have "drop 2 t \<noteq> []" using l by simp
  then have "drop 2 t = butlast (drop 2 t) @ [last (drop 2 t)]"
    by (rule append_butlast_last_id [symmetric])
  moreover have "last (drop 2 t) = last t" using l by simp
  ultimately have "t = csiM (slice2 t)"
    using h e by (simp add: csiM_def slice2_def)
  with b that show ?thesis by blast
qed

lemma matchSgr_csiM:
  "list_all isParamChar body \<Longrightarrow> matchSgr (csiM body @ after) = Some (csiM body, after)"
proof -
  assume b: "list_all isParamChar body"
  have m: "\<not> isParamChar (CHR ''m'')" by (simp add: isParamChar_def isDigit_def)
  from b have tw: "takeWhile isParamChar (body @ CHR ''m'' # after) = body"
    using m by (simp add: takeWhile_append2 list_all_iff)
  from b have dw: "dropWhile isParamChar (body @ CHR ''m'' # after) = CHR ''m'' # after"
    using m by (simp add: dropWhile_append2 list_all_iff)
  show ?thesis
    by (simp add: matchSgr_def csiM_def tw dw)
qed

lemma stripColors_token: "isSgrToken t \<Longrightarrow> stripColors t = sgrReplace t"
proof -
  assume "isSgrToken t"
  then obtain body where t: "t = csiM body" and b: "list_all isParamChar body"
    by (rule isSgrToken_obtain)
  have "stripColors (csiM body) = sgrReplace (csiM body) @ stripColors []"
    using matchSgr_csiM [OF b, of "[]"] by (simp add: csiM_def)
  with t show ?thesis by simp
qed


lemma slice2_csiM [simp]: "slice2 (csiM body) = body"
  by (simp add: slice2_def csiM_def)

lemma paramCodes_pieces:
  assumes "list_all isParamChar body" and "p \<in> set (paramCodes (csiM body))"
  shows "paramPiece p"
proof -
  from assms(2) have ne: "p \<noteq> []" and mem: "p \<in> set (split (CHR '';'') body)"
    by (simp_all add: paramCodes_def)
  from split_pieces [OF mem] have "CHR '';'' \<notin> set p" and "set p \<subseteq> set body"
    by simp_all
  with assms(1) have "list_all isDigit p"
    by (auto simp: list_all_iff isParamChar_def)
  with ne show ?thesis by (simp add: paramPiece_def)
qed

lemma paramPiece_lits [simp]:
  "paramPiece ''0''" "paramPiece ''39''" "paramPiece ''38''" "paramPiece ''5''" "paramPiece ''2''"
  by (simp_all add: paramPiece_def isDigit_def)

lemma filterCodes_pieces:
  "\<forall>p \<in> set cs. paramPiece p \<Longrightarrow> \<forall>p \<in> set (filterCodes cs). paramPiece p"
proof (induction "length cs" arbitrary: cs rule: less_induct)
  case less
  show ?case
  proof (cases cs)
    case Nil
    then show ?thesis by simp
  next
    case (Cons c rest)
    have IH: "\<And>k. 0 < k \<Longrightarrow> \<forall>p \<in> set (filterCodes (drop k cs)). paramPiece p"
    proof -
      fix k :: nat
      assume "0 < k"
      then have "length (drop k cs) < length cs" using Cons by simp
      moreover have "\<forall>p \<in> set (drop k cs). paramPiece p"
        using less.prems by (meson in_set_dropD)
      ultimately show "\<forall>p \<in> set (filterCodes (drop k cs)). paramPiece p"
        by (rule less.hyps)
    qed
    show ?thesis
    proof (cases c rest rule: stepCode_cases)
      case zero
      have "filterCodes cs = ''0'' # filterCodes rest"
        using filterCodes_step [OF zero(2)] Cons by simp
      then show ?thesis using IH [of 1] Cons by simp
    next
      case (single n)
      have "filterCodes cs = c # filterCodes rest"
        using filterCodes_step [OF single(3)] Cons by simp
      then show ?thesis using IH [of 1] Cons less.prems by simp
    next
      case dflt
      have "filterCodes cs = ''39'' # filterCodes rest"
        using filterCodes_step [OF dflt(2)] Cons by simp
      then show ?thesis using IH [of 1] Cons by simp
    next
      case (c256 x rest')
      have "filterCodes cs = ''38'' # ''5'' # x # filterCodes rest'"
        using filterCodes_step [OF c256(4)] c256(2) Cons by simp
      then show ?thesis using IH [of 3] Cons c256(2) less.prems by simp
    next
      case (rgb r g b rest')
      have "filterCodes cs = ''38'' # ''2'' # r # g # b # filterCodes rest'"
        using filterCodes_step [OF rgb(4)] rgb(2) Cons by simp
      then show ?thesis using IH [of 5] Cons rgb(2) less.prems by simp
    next
      case (skip adv)
      have "filterCodes cs = filterCodes (drop adv cs)"
        using filterCodes_step [OF skip(2)] Cons by simp
      then show ?thesis using IH [of adv] skip(1) by simp
    qed
  qed
qed

lemma filterCodes_safe: "\<forall>n \<in> set (sgrCodes (filterCodes cs)). \<not> unsafeCode n"
proof (induction "length cs" arbitrary: cs rule: less_induct)
  case less
  show ?case
  proof (cases cs)
    case Nil
    then show ?thesis by simp
  next
    case (Cons c rest)
    have IH: "\<And>k. 0 < k \<Longrightarrow> \<forall>n \<in> set (sgrCodes (filterCodes (drop k cs))). \<not> unsafeCode n"
    proof -
      fix k :: nat
      assume "0 < k"
      then have "length (drop k cs) < length cs" using Cons by simp
      then show "\<forall>n \<in> set (sgrCodes (filterCodes (drop k cs))). \<not> unsafeCode n"
        by (rule less.hyps)
    qed
    show ?thesis
    proof (cases c rest rule: stepCode_cases)
      case zero
      have "filterCodes cs = ''0'' # filterCodes rest"
        using filterCodes_step [OF zero(2)] Cons by simp
      then show ?thesis using IH [of 1] Cons by (simp add: unsafeCode_def)
    next
      case (single n)
      have "filterCodes cs = c # filterCodes rest"
        using filterCodes_step [OF single(3)] Cons by simp
      moreover have "n \<noteq> 38" "n \<noteq> 48" "\<not> unsafeCode n"
        using single(2) by (auto simp: keptSingle_def unsafeCode_def)
      ultimately show ?thesis using IH [of 1] Cons single(1) by simp
    next
      case dflt
      have "filterCodes cs = ''39'' # filterCodes rest"
        using filterCodes_step [OF dflt(2)] Cons by simp
      then show ?thesis using IH [of 1] Cons by (simp add: unsafeCode_def)
    next
      case (c256 x rest')
      have "filterCodes cs = ''38'' # ''5'' # x # filterCodes rest'"
        using filterCodes_step [OF c256(4)] c256(2) Cons by simp
      then show ?thesis using IH [of 3] Cons c256(2) by (simp add: unsafeCode_def)
    next
      case (rgb r g b rest')
      have "filterCodes cs = ''38'' # ''2'' # r # g # b # filterCodes rest'"
        using filterCodes_step [OF rgb(4)] rgb(2) Cons by simp
      then show ?thesis using IH [of 5] Cons rgb(2) by (simp add: unsafeCode_def)
    next
      case (skip adv)
      have "filterCodes cs = filterCodes (drop adv cs)"
        using filterCodes_step [OF skip(2)] Cons by simp
      then show ?thesis using IH [of adv] skip(1) by simp
    qed
  qed
qed

lemma join_paramChars:
  "\<forall>p \<in> set xs. paramPiece p \<Longrightarrow> list_all isParamChar (join (CHR '';'') xs)"
proof -
  assume ps: "\<forall>p \<in> set xs. paramPiece p"
  have "isParamChar c" if "c \<in> set (join (CHR '';'') xs)" for c
  proof -
    from that set_join [of "CHR '';''" xs]
    consider "c = CHR '';''" | p where "p \<in> set xs" "c \<in> set p"
      by auto
    then show ?thesis
    proof cases
      case 1
      then show ?thesis by (simp add: isParamChar_def)
    next
      case 2
      with ps have "isDigit c" by (auto simp: paramPiece_def list_all_iff)
      then show ?thesis by (simp add: isParamChar_def)
    qed
  qed
  then show ?thesis by (simp add: list_all_iff)
qed

lemma semicolon_not_digit: "\<not> isDigit (CHR '';'')"
  by (simp add: isDigit_def)

lemma paramPiece_no_sep: "paramPiece p \<Longrightarrow> CHR '';'' \<notin> set p"
  using semicolon_not_digit by (auto simp: paramPiece_def list_all_iff)

lemma paramCodes_join:
  assumes "xs \<noteq> []" and "\<forall>p \<in> set xs. paramPiece p"
  shows "paramCodes (csiM (join (CHR '';'') xs)) = xs"
proof -
  have "split (CHR '';'') (join (CHR '';'') xs) = xs"
    using assms paramPiece_no_sep by (intro split_join) auto
  moreover have "filter (\<lambda>c. c \<noteq> []) xs = xs"
    using assms(2) by (auto simp: paramPiece_def filter_id_conv)
  ultimately show ?thesis by (simp add: paramCodes_def)
qed

lemma sgrReplace_shape:
  assumes "list_all isParamChar body"
  shows "sgrReplace (csiM body) = [] \<or>
    (\<exists>xs. xs \<noteq> [] \<and> (\<forall>p \<in> set xs. paramPiece p) \<and> filterCodes xs = xs
        \<and> (\<forall>n \<in> set (sgrCodes xs). \<not> unsafeCode n)
        \<and> sgrReplace (csiM body) = csiM (join (CHR '';'') xs))"
proof (cases "paramCodes (csiM body) = []")
  case True
  have "filterCodes [''0''] = [''0'']"
    using filterCodes_step [OF stepCode_zero, of "[]"] by simp
  moreover have "sgrReplace (csiM body) = csiM (join (CHR '';'') [''0''])"
    using True by (simp add: sgrReplace_def csiM_def)
  ultimately show ?thesis
    by (intro disjI2 exI [of _ "[''0'']"]) (simp add: unsafeCode_def)
next
  case False
  let ?al = "filterCodes (paramCodes (csiM body))"
  show ?thesis
  proof (cases "?al = []")
    case True
    with False show ?thesis by (simp add: sgrReplace_def)
  next
    case ne: False
    have "\<forall>p \<in> set ?al. paramPiece p"
      using paramCodes_pieces [OF assms] by (intro filterCodes_pieces) blast
    moreover have "filterCodes ?al = ?al" by (rule filterCodes_idem)
    moreover have "\<forall>n \<in> set (sgrCodes ?al). \<not> unsafeCode n" by (rule filterCodes_safe)
    moreover have "sgrReplace (csiM body) = csiM (join (CHR '';'') ?al)"
      using False ne by (simp add: sgrReplace_def csiM_def)
    ultimately show ?thesis using ne by blast
  qed
qed

lemma sgrReplace_fixed:
  assumes "xs \<noteq> []" and "\<forall>p \<in> set xs. paramPiece p" and "filterCodes xs = xs"
  shows "sgrReplace (csiM (join (CHR '';'') xs)) = csiM (join (CHR '';'') xs)"
proof -
  have "paramCodes (csiM (join (CHR '';'') xs)) = xs"
    using assms(1,2) by (rule paramCodes_join)
  then have "sgrReplace (csiM (join (CHR '';'') xs)) = [ESC, CHR ''[''] @ join (CHR '';'') xs @ ''m''"
    using assms(1,3) by (simp add: sgrReplace_def)
  then show ?thesis by (simp add: csiM_def)
qed

section \<open>Lemmas on the flush pipeline and the timers\<close>

lemma contentWrites_append [simp]:
  "contentWrites (xs @ ys) = contentWrites xs @ contentWrites ys"
  by (induction xs rule: contentWrites.induct) simp_all

lemma banners_append [simp]: "banners (xs @ ys) = banners xs + banners ys"
  by (simp add: banners_def)

lemma banners_simps [simp]:
  "banners [] = 0" "banners (Raw x # ws) = banners ws" "banners (FooterDraw # ws) = banners ws"
  "banners (SetRegion x # ws) = banners ws" "banners (ExitBanner # ws) = Suc (banners ws)"
  by (simp_all add: banners_def)

lemma quiet_refl [simp]: "quiet s s"
  by (simp add: quiet_def)

lemma quiet_trans: "quiet s s' \<Longrightarrow> quiet s' s'' \<Longrightarrow> quiet s s''"
  by (simp add: quiet_def)

lemma fireDraw_quiet: "quiet s (fireDraw e t s)"
  by (simp add: fireDraw_def pendingDrawFires_def drawFooter_def quiet_def split: option.splits)







lemma runSetupScrollRegion_quiet: "quiet s (runSetupScrollRegion e s)"
proof -
  have "contentWrites (map SetRegion ws) = []" for ws
    by (induction ws) simp_all
  moreover have "banners (map SetRegion ws) = 0" for ws
    by (induction ws) simp_all
  ultimately show ?thesis
    by (simp add: runSetupScrollRegion_def quiet_def split: prod.splits)
qed

lemma drawFooter_quiet: "quiet s (drawFooter e s)"
  by (simp add: drawFooter_def quiet_def)

lemma resizeTimeoutFires_quiet: "quiet s (resizeTimeoutFires e s)"
proof -
  let ?s0 = "s\<lparr>resizeTimeout := None\<rparr>"
  have q0: "quiet s ?s0" by (simp add: quiet_def)
  have q1: "quiet ?s0 (runSetupScrollRegion e ?s0)" by (rule runSetupScrollRegion_quiet)
  have q2: "quiet (runSetupScrollRegion e ?s0) (drawFooter e (runSetupScrollRegion e ?s0))"
    by (rule drawFooter_quiet)
  show ?thesis
    using quiet_trans [OF q0 q1] quiet_trans [OF quiet_trans [OF q0 q1] q2]
    by (simp add: resizeTimeoutFires_def Let_def)
qed

lemma onStdoutResize_quiet: "quiet s (onStdoutResize e s)"
  using runSetupScrollRegion_quiet [of s e]
    quiet_trans [OF runSetupScrollRegion_quiet drawFooter_quiet, of s e e]
  by (simp add: onStdoutResize_def Let_def)






lemma stripColors_None:
  "matchSgr (c # cs) = None \<Longrightarrow> stripColors (c # cs) = c # stripColors cs"
  by simp

lemma stripColors_Some:
  "matchSgr (c # cs) = Some (tok, after) \<Longrightarrow> stripColors (c # cs) = sgrReplace tok @ stripColors after"
  by simp

declare stripColors.simps(2) [simp del]

lemma replaceAll_hit:
  "pat \<noteq> [] \<Longrightarrow> prefix pat (c # cs) \<Longrightarrow>
     replaceAll pat rep (c # cs) = rep @ replaceAll pat rep (drop (length pat) (c # cs))"
  by (subst replaceAll.simps(2)) simp

lemma replaceAll_miss:
  "\<not> prefix pat (c # cs) \<Longrightarrow> replaceAll pat rep (c # cs) = c # replaceAll pat rep cs"
  by (subst replaceAll.simps(2)) simp

lemma ESC_not_param: "\<not> isParamChar ESC"
  by (simp add: isParamChar_def isDigit_def)

lemma matchSgr_not_ESC: "c \<noteq> ESC \<Longrightarrow> matchSgr (c # cs) = None"
  by (simp add: matchSgr_def split: list.splits)

lemma stripColors_plain: "ESC \<notin> set u \<Longrightarrow> stripColors (u @ r) = u @ stripColors r"
proof (induction u)
  case Nil
  then show ?case by simp
next
  case (Cons c u)
  then have "c \<noteq> ESC" by auto
  then have "matchSgr (c # u @ r) = None" by (rule matchSgr_not_ESC)
  then have "stripColors (c # u @ r) = c # stripColors (u @ r)" by (rule stripColors_None)
  then show ?case using Cons by simp
qed

lemma matchSgr_append_ESC:
  "matchSgr (c # cs @ ESC # r) =
     (case matchSgr (c # cs) of None \<Rightarrow> None | Some (tok, after) \<Rightarrow> Some (tok, after @ ESC # r))"
proof (cases "c = ESC")
  case False
  then show ?thesis by (simp add: matchSgr_not_ESC)
next
  case True
  show ?thesis
  proof (cases cs)
    case Nil
    then show ?thesis using True by (simp add: matchSgr_def)
  next
    case (Cons b t)
    show ?thesis
    proof (cases "b = CHR ''[''")
      case False
      then show ?thesis using True Cons by (simp add: matchSgr_def)
    next
      case br: True
      define D where "D = dropWhile isParamChar t"
      define T where "T = takeWhile isParamChar t"
      have tw: "takeWhile isParamChar (t @ ESC # r) = T"
        unfolding T_def using ESC_not_param by (induction t) simp_all
      have dw: "dropWhile isParamChar (t @ ESC # r) = D @ ESC # r"
        unfolding D_def using ESC_not_param by (induction t) simp_all
      have m1: "matchSgr (ESC # CHR ''['' # t) =
          (case D of [] \<Rightarrow> None
           | m # after \<Rightarrow> if m = CHR ''m'' then Some ([ESC, CHR ''[''] @ T @ ''m'', after) else None)"
        unfolding D_def T_def by (simp add: matchSgr_def)
      have m2: "matchSgr (ESC # CHR ''['' # t @ ESC # r) =
          (case D @ ESC # r of [] \<Rightarrow> None
           | m # after \<Rightarrow> if m = CHR ''m'' then Some ([ESC, CHR ''[''] @ T @ ''m'', after) else None)"
        unfolding tw [symmetric] dw [symmetric] by (simp add: matchSgr_def)
      have "matchSgr (ESC # CHR ''['' # t @ ESC # r) =
          (case matchSgr (ESC # CHR ''['' # t) of None \<Rightarrow> None
           | Some (tok, after) \<Rightarrow> Some (tok, after @ ESC # r))"
        unfolding m1 m2 by (cases D) simp_all
      then show ?thesis
        using True Cons br by simp
    qed
  qed
qed

lemma stripColors_split_ESC:
  "stripColors (a @ ESC # r) = stripColors a @ stripColors (ESC # r)"
proof (induction a rule: stripColors.induct)
  case 1
  then show ?case by simp
next
  case (2 c cs)
  show ?case
  proof (cases "matchSgr (c # cs)")
    case None
    then have "matchSgr (c # cs @ ESC # r) = None"
      by (simp add: matchSgr_append_ESC)
    then have "stripColors (c # cs @ ESC # r) = c # stripColors (cs @ ESC # r)"
      by (rule stripColors_None)
    moreover have "stripColors (c # cs) = c # stripColors cs"
      using None by (rule stripColors_None)
    moreover have "stripColors (cs @ ESC # r) = stripColors cs @ stripColors (ESC # r)"
      using None 2 by blast
    ultimately show ?thesis by simp
  next
    case (Some m)
    obtain tok after where m: "m = (tok, after)" by (cases m)
    have "matchSgr (c # cs @ ESC # r) = Some (tok, after @ ESC # r)"
      using Some m by (simp add: matchSgr_append_ESC)
    then have "stripColors (c # cs @ ESC # r) = sgrReplace tok @ stripColors (after @ ESC # r)"
      by (rule stripColors_Some)
    moreover have "stripColors (c # cs) = sgrReplace tok @ stripColors after"
      using Some m by (intro stripColors_Some) simp
    moreover have "stripColors (after @ ESC # r) = stripColors after @ stripColors (ESC # r)"
      using Some m 2 by blast
    ultimately show ?thesis by simp
  qed
qed

text \<open>A control sequence that is no rendition token stays as it is.\<close>

lemma stripColors_other_csi:
  assumes "list_all isParamChar ps" and "x \<noteq> CHR ''m''" and "\<not> isParamChar x" and "x \<noteq> ESC"
  shows "stripColors (ESC # CHR ''['' # ps @ x # r) = ESC # CHR ''['' # ps @ x # stripColors r"
proof -
  have dw: "dropWhile isParamChar (ps @ x # r) = x # r"
    using assms(1,3) by (simp add: dropWhile_append2 list_all_iff)
  have "matchSgr (ESC # CHR ''['' # ps @ x # r) = None"
    using assms(2) by (simp add: matchSgr_def dw)
  then have "stripColors (ESC # CHR ''['' # ps @ x # r) = ESC # stripColors ((CHR ''['' # ps @ [x]) @ r)"
    using stripColors_None [of ESC "CHR ''['' # ps @ x # r"] by simp
  moreover have "ESC \<notin> set (CHR ''['' # ps @ [x])"
    using assms(1,4) ESC_not_param by (auto simp: list_all_iff)
  ultimately show ?thesis
    using stripColors_plain [of "CHR ''['' # ps @ [x]" r] by simp
qed

lemma replaceAll_plain:
  "hd pat \<notin> set u \<Longrightarrow> replaceAll pat rep (u @ r) = u @ replaceAll pat rep r"
proof (induction u)
  case Nil
  then show ?case by simp
next
  case (Cons c u)
  have "\<not> (pat \<noteq> [] \<and> prefix pat (c # u @ r))"
    using Cons.prems by (cases pat) auto
  then have "replaceAll pat rep (c # u @ r) = c # replaceAll pat rep (u @ r)"
    by (cases "pat = []") (simp_all add: replaceAll.simps(2))
  moreover have "hd pat \<notin> set u" using Cons.prems by simp
  ultimately show ?case using Cons.IH by simp
qed

lemma replaceAll_match:
  "pat \<noteq> [] \<Longrightarrow> replaceAll pat rep (pat @ r) = rep @ replaceAll pat rep r"
proof -
  assume ne: "pat \<noteq> []"
  then obtain c cs where p: "pat = c # cs" by (cases pat) auto
  have "prefix pat (c # cs @ r)" using p by simp
  from replaceAll_hit [OF ne this, of rep] show ?thesis using p by simp
qed

lemma prefix_before_delim:
  assumes "e \<notin> set p'"
  shows "prefix (e # p') (c # cs @ e # r) = prefix (e # p') (c # cs)"
proof
  assume "prefix (e # p') (c # cs)"
  then show "prefix (e # p') (c # cs @ e # r)"
    by (metis append_Cons prefix_prefix)
next
  assume pr: "prefix (e # p') (c # cs @ e # r)"
  then have c: "c = e" and p: "prefix p' (cs @ e # r)" by auto
  from p have "prefix p' cs \<or> (\<exists>us. us \<noteq> [] \<and> prefix us (e # r) \<and> p' = cs @ us)"
    by (auto simp: prefix_append)
  then have "prefix p' cs"
  proof
    assume "prefix p' cs" then show ?thesis .
  next
    assume "\<exists>us. us \<noteq> [] \<and> prefix us (e # r) \<and> p' = cs @ us"
    then obtain us where "us \<noteq> []" "prefix us (e # r)" "p' = cs @ us" by blast
    then have "e \<in> set p'" by (cases us) auto
    with assms show ?thesis by simp
  qed
  with c show "prefix (e # p') (c # cs)" by simp
qed

lemma replaceAll_split_delim:
  assumes "e \<notin> set p'"
  shows "replaceAll (e # p') rep (a @ e # r)
           = replaceAll (e # p') rep a @ replaceAll (e # p') rep (e # r)"
proof (induction "length a" arbitrary: a rule: less_induct)
  case less
  show ?case
  proof (cases a)
    case Nil
    then show ?thesis by simp
  next
    case (Cons c cs)
    let ?n = "length (e # p')"
    show ?thesis
    proof (cases "prefix (e # p') (c # cs)")
      case True
      then have pl: "?n \<le> length (c # cs)" by (rule prefix_length_le)
      have "length (drop ?n (c # cs)) < length a"
        using Cons by simp
      then have ih: "replaceAll (e # p') rep (drop ?n (c # cs) @ e # r)
          = replaceAll (e # p') rep (drop ?n (c # cs)) @ replaceAll (e # p') rep (e # r)"
        by (rule less)
      have d: "drop ?n (c # cs @ e # r) = drop ?n (c # cs) @ e # r"
        using pl by simp
      have hit: "prefix (e # p') (c # cs @ e # r)"
        using True prefix_before_delim [OF assms, of c cs r] by blast
      have "replaceAll (e # p') rep (c # cs @ e # r)
          = rep @ replaceAll (e # p') rep (drop ?n (c # cs @ e # r))"
        by (rule replaceAll_hit [OF _ hit]) simp
      moreover have "replaceAll (e # p') rep (c # cs)
          = rep @ replaceAll (e # p') rep (drop ?n (c # cs))"
        by (rule replaceAll_hit [OF _ True]) simp
      ultimately have "replaceAll (e # p') rep (c # cs @ e # r)
          = replaceAll (e # p') rep (c # cs) @ replaceAll (e # p') rep (e # r)"
        unfolding d ih by simp
      then show ?thesis using Cons by simp
    next
      case False
      then have "\<not> prefix (e # p') (c # cs @ e # r)"
        using prefix_before_delim [OF assms, of c cs r] by blast
      then have "replaceAll (e # p') rep (c # cs @ e # r)
          = c # replaceAll (e # p') rep (cs @ e # r)"
        by (rule replaceAll_miss)
      moreover have "replaceAll (e # p') rep (c # cs) = c # replaceAll (e # p') rep cs"
        using False by (rule replaceAll_miss)
      moreover have "replaceAll (e # p') rep (cs @ e # r)
          = replaceAll (e # p') rep cs @ replaceAll (e # p') rep (e # r)"
        using less [of cs] Cons by simp
      ultimately show ?thesis using Cons by simp
    qed
  qed
qed

lemma replaceAll_not_included:
  "\<not> includesStr pat s \<Longrightarrow> replaceAll pat rep s = s"
  by (induction s) (simp_all add: replaceAll_miss)


lemma isDigit_digitChar: "d < 10 \<Longrightarrow> isDigit (digitChar d)"
proof -
  assume "d < 10"
  have all: "list_all (\<lambda>d. isDigit (digitChar d)) [0..<10]"
    by code_simp
  from \<open>d < 10\<close> have "d \<in> set [0..<10]" by simp
  with all show ?thesis unfolding list_all_iff by blast
qed

lemma showNat_digits: "list_all isDigit (showNat n)"
proof (induction n rule: showNat.induct)
  case (1 n)
  show ?case
  proof (cases "n < 10")
    case True
    then show ?thesis by (subst showNat.simps) (simp add: isDigit_digitChar)
  next
    case False
    then have "list_all isDigit (showNat (n div 10))" by (rule 1)
    moreover have "isDigit (digitChar (n mod 10))" by (rule isDigit_digitChar) simp
    ultimately show ?thesis using False by (subst showNat.simps) simp
  qed
qed

lemma digit_facts: "isDigit c \<Longrightarrow> c \<noteq> ESC \<and> c \<noteq> CHR ''r'' \<and> isParamChar c"
  by (auto simp: isDigit_def isParamChar_def)

lemma showNat_free: "ESC \<notin> set (showNat n)" "CHR ''r'' \<notin> set (showNat n)"
  using showNat_digits [of n] digit_facts by (auto simp: list_all_iff)

lemma showNat_params: "list_all isParamChar (showNat n)"
  using showNat_digits [of n] digit_facts by (auto simp: list_all_iff)

lemma region_Cons: "region n = ESC # regionTail n"
  by (simp add: region_def regionTail_def)

lemma regionTail_free: "ESC \<notin> set (regionTail n)"
  using showNat_free(1) [of n] by (simp add: regionTail_def)

lemma stripColors_region: "stripColors (region n @ b) = region n @ stripColors b"
proof -
  have p: "list_all isParamChar (''1;'' @ showNat n)"
    using showNat_params [of n] by (simp add: isParamChar_def isDigit_def)
  have "stripColors (ESC # CHR ''['' # (''1;'' @ showNat n) @ CHR ''r'' # b)
      = ESC # CHR ''['' # (''1;'' @ showNat n) @ CHR ''r'' # stripColors b"
    using p by (rule stripColors_other_csi) (simp_all add: isParamChar_def isDigit_def)
  then show ?thesis by (simp add: region_def)
qed

lemma stripColors_csiR: "stripColors (csiR @ b) = csiR @ stripColors b"
proof -
  have "stripColors (ESC # CHR ''['' # [] @ CHR ''r'' # b)
      = ESC # CHR ''['' # [] @ CHR ''r'' # stripColors b"
    by (rule stripColors_other_csi) (simp_all add: isParamChar_def isDigit_def)
  then show ?thesis by (simp add: csiR_def)
qed

lemma stripStep_region: "stripStep e (a @ region n @ b) = stripStep e a @ region n @ stripStep e b"
proof (cases "shouldStrip e")
  case False
  then show ?thesis by (simp add: stripStep_def)
next
  case True
  have "stripColors (a @ ESC # regionTail n @ b) = stripColors a @ stripColors (ESC # regionTail n @ b)"
    by (rule stripColors_split_ESC)
  then have "stripColors (a @ region n @ b) = stripColors a @ stripColors (region n @ b)"
    by (simp add: region_Cons)
  then show ?thesis using True by (simp add: stripStep_def stripColors_region)
qed

lemma stripStep_csiR: "stripStep e (a @ csiR @ b) = stripStep e a @ csiR @ stripStep e b"
proof (cases "shouldStrip e")
  case False
  then show ?thesis by (simp add: stripStep_def)
next
  case True
  have "stripColors (a @ ESC # ''[r'' @ b) = stripColors a @ stripColors (ESC # ''[r'' @ b)"
    by (rule stripColors_split_ESC)
  then have "stripColors (a @ csiR @ b) = stripColors a @ stripColors (csiR @ b)"
    by (simp add: csiR_def)
  then show ?thesis using True by (simp add: stripStep_def stripColors_csiR)
qed

text \<open>A token that the pattern does not match passes a replace unchanged.\<close>

lemma replaceAll_passes_token:
  assumes "ESC \<notin> set p'" and "ESC \<notin> set tok'" and "\<not> prefix (ESC # p') (ESC # tok' @ y)"
  shows "replaceAll (ESC # p') rep (x @ (ESC # tok') @ y)
    = replaceAll (ESC # p') rep x @ (ESC # tok') @ replaceAll (ESC # p') rep y"
proof -
  have "replaceAll (ESC # p') rep (x @ ESC # tok' @ y)
      = replaceAll (ESC # p') rep x @ replaceAll (ESC # p') rep (ESC # tok' @ y)"
    using assms(1) by (rule replaceAll_split_delim)
  moreover have "replaceAll (ESC # p') rep (ESC # tok' @ y)
      = ESC # replaceAll (ESC # p') rep (tok' @ y)"
    using assms(3) by (rule replaceAll_miss)
  moreover have "replaceAll (ESC # p') rep (tok' @ y) = tok' @ replaceAll (ESC # p') rep y"
    using assms(2) by (intro replaceAll_plain) simp
  ultimately show ?thesis by simp
qed

lemma replaceAll_replaces_token:
  assumes "ESC \<notin> set p'"
  shows "replaceAll (ESC # p') rep (x @ (ESC # p') @ y)
    = replaceAll (ESC # p') rep x @ rep @ replaceAll (ESC # p') rep y"
proof -
  have "replaceAll (ESC # p') rep (x @ ESC # p' @ y)
      = replaceAll (ESC # p') rep x @ replaceAll (ESC # p') rep (ESC # p' @ y)"
    using assms(1) by (rule replaceAll_split_delim)
  moreover have "replaceAll (ESC # p') rep ((ESC # p') @ y) = rep @ replaceAll (ESC # p') rep y"
    by (rule replaceAll_match) simp
  ultimately show ?thesis by simp
qed

lemma prefix_delim_eq:
  "d \<notin> set x \<Longrightarrow> d \<notin> set u \<Longrightarrow> prefix (x @ [d]) (u @ d # v) \<Longrightarrow> x = u"
proof (induction x arbitrary: u)
  case Nil
  then show ?case by (cases u) auto
next
  case (Cons a x)
  then show ?case by (cases u) auto
qed

lemma region_prefix_eq:
  assumes "prefix (region m) (region n @ y)"
  shows "region m = region n"
proof -
  from assms have "prefix (showNat m @ [CHR ''r'']) (showNat n @ CHR ''r'' # y)"
    by (simp add: region_def)
  then have "showNat m = showNat n"
    using showNat_free(2) by (intro prefix_delim_eq [of "CHR ''r''"]) auto
  then show ?thesis by (simp add: region_def)
qed

lemma replaceAll_csiR_token:
  "replaceAll csiR rep (x @ csiR @ y) = replaceAll csiR rep x @ rep @ replaceAll csiR rep y"
  using replaceAll_replaces_token [of "''[r''" rep x y] by (simp add: csiR_def)

lemma replaceAll_csiR_region:
  "replaceAll csiR rep (x @ region n @ y) = replaceAll csiR rep x @ region n @ replaceAll csiR rep y"
proof -
  have "\<not> prefix (ESC # ''[r'') (ESC # regionTail n @ y)"
    by (simp add: regionTail_def)
  then have "replaceAll (ESC # ''[r'') rep (x @ (ESC # regionTail n) @ y)
      = replaceAll (ESC # ''[r'') rep x @ (ESC # regionTail n) @ replaceAll (ESC # ''[r'') rep y"
    using regionTail_free [of n] by (intro replaceAll_passes_token) simp_all
  then show ?thesis by (simp add: csiR_def region_Cons)
qed

lemma replaceAll_region_same:
  "replaceAll (region m) rep (x @ region m @ y)
     = replaceAll (region m) rep x @ rep @ replaceAll (region m) rep y"
  using replaceAll_replaces_token [OF regionTail_free, of m rep x y] by (simp add: region_Cons)

lemma replaceAll_region_to_itself:
  "replaceAll (region m) (region n) (x @ region n @ y)
     = replaceAll (region m) (region n) x @ region n @ replaceAll (region m) (region n) y"
proof (cases "prefix (region m) (region n @ y)")
  case True
  then have "region m = region n" by (rule region_prefix_eq)
  then show ?thesis using replaceAll_region_same [of n "region n" x y] by simp
next
  case False
  then have "\<not> prefix (ESC # regionTail m) (ESC # regionTail n @ y)"
    by (simp add: region_Cons)
  then have "replaceAll (ESC # regionTail m) (region n) (x @ (ESC # regionTail n) @ y)
      = replaceAll (ESC # regionTail m) (region n) x @ (ESC # regionTail n)
          @ replaceAll (ESC # regionTail m) (region n) y"
    using regionTail_free by (intro replaceAll_passes_token) simp_all
  then show ?thesis by (simp add: region_Cons)
qed

lemma rewriteRegion_csiR:
  assumes "showFooter e" and "\<not> sshMode e"
  shows "rewriteRegion e (x @ csiR @ y)
    = rewriteRegion e x @ region (contentRows e) @ rewriteRegion e y"
  using assms
  by (simp add: rewriteRegion_def Let_def replaceAll_csiR_token replaceAll_region_to_itself)

lemma rewriteRegion_full:
  assumes "showFooter e" and "\<not> sshMode e"
  shows "rewriteRegion e (x @ region (termRows e) @ y)
    = rewriteRegion e x @ region (contentRows e) @ rewriteRegion e y"
  using assms
  by (simp add: rewriteRegion_def Let_def replaceAll_csiR_region replaceAll_region_same)

lemma injectScrollbackClear_eq:
  "injectScrollbackClear e out =
     (if isMac e then out else replaceAll clearScreen (clearScreen @ clearScrollback) out)"
  by (simp add: injectScrollbackClear_def replaceAll_not_included)

lemma injectScrollbackClear_region:
  "injectScrollbackClear e (x @ region n @ y)
     = injectScrollbackClear e x @ region n @ injectScrollbackClear e y"
proof (cases "isMac e")
  case True
  then show ?thesis by (simp add: injectScrollbackClear_eq)
next
  case False
  have "\<not> prefix (ESC # ''[2J'') (ESC # regionTail n @ y)"
    by (simp add: regionTail_def)
  then have "replaceAll (ESC # ''[2J'') (clearScreen @ clearScrollback) (x @ (ESC # regionTail n) @ y)
      = replaceAll (ESC # ''[2J'') (clearScreen @ clearScrollback) x @ (ESC # regionTail n)
          @ replaceAll (ESC # ''[2J'') (clearScreen @ clearScrollback) y"
    using regionTail_free [of n] by (intro replaceAll_passes_token) simp_all
  then show ?thesis using False by (simp add: injectScrollbackClear_eq clearScreen_def region_Cons)
qed

lemma flushBody_csiR:
  assumes "showFooter e" and "\<not> sshMode e"
  shows "flushBody e (a @ csiR @ b) = flushBody e a @ region (contentRows e) @ flushBody e b"
  by (simp add: flushBody_def stripStep_csiR rewriteRegion_csiR [OF assms]
      injectScrollbackClear_region)

lemma flushBody_full:
  assumes "showFooter e" and "\<not> sshMode e"
  shows "flushBody e (a @ region (termRows e) @ b)
    = flushBody e a @ region (contentRows e) @ flushBody e b"
  by (simp add: flushBody_def stripStep_region rewriteRegion_full [OF assms]
      injectScrollbackClear_region)

lemma flushBody_plain: "ESC \<notin> set u \<Longrightarrow> flushBody e u = u"
proof -
  assume u: "ESC \<notin> set u"
  have s: "stripColors u = u" using stripColors_plain [OF u, of "[]"] by simp
  have r: "\<And>p' rep. replaceAll (ESC # p') rep u = u"
    using replaceAll_plain [of _ u _ "[]"] u by simp
  have "stripStep e u = u" by (simp add: stripStep_def s)
  moreover have "rewriteRegion e u = u"
    by (simp add: rewriteRegion_def Let_def csiR_def region_Cons r)
  moreover have "injectScrollbackClear e u = u"
    by (simp add: injectScrollbackClear_eq clearScreen_def r)
  ultimately show ?thesis by (simp add: flushBody_def)
qed

lemma flushBody_Nil [simp]: "flushBody e [] = []"
  by (rule flushBody_plain) simp

lemma region_24: "region 24 = [ESC] @ ''[1;24r''" and region_23: "region 23 = [ESC] @ ''[1;23r''"
  by code_simp+


lemma processAndFlush_stdout:
  "outputBuffer s \<noteq> [] \<Longrightarrow> \<not> exiting s \<Longrightarrow>
     stdout (processAndFlush e now s)
       = stdout s @ [Raw (flushOutput e (startupCleared s) (outputBuffer s))]"
  by (simp add: processAndFlush_def Let_def scheduleFooterDraw_def)

lemma kept_trans: "kept s s' \<Longrightarrow> kept s' s'' \<Longrightarrow> kept s s''"
  by (simp add: kept_def)

lemma quiet_kept: "quiet s s' \<Longrightarrow> kept s s'"
  by (simp add: quiet_def kept_def)

lemma fireFlush_kept: "kept s (fireFlush e t s)"
  by (simp add: kept_def fireFlush_def processAndFlush_def Let_def scheduleFooterDraw_def
      split: option.splits)

lemma fireOutputTimers_kept: "kept s (fireOutputTimers e t s)"
proof -
  let ?f = "case flushTimer s of None \<Rightarrow> t | Some d \<Rightarrow> min t d"
  let ?s1 = "fireDraw e ?f s"
  let ?s2 = "fireFlush e t ?s1"
  have "kept s ?s1" using fireDraw_quiet by (rule quiet_kept)
  moreover have "kept ?s1 ?s2" by (rule fireFlush_kept)
  moreover have "kept ?s2 (fireDraw e t ?s2)" using fireDraw_quiet by (rule quiet_kept)
  ultimately have "kept s (fireDraw e t ?s2)" using kept_trans by blast
  then show ?thesis by (simp add: fireOutputTimers_def Let_def)
qed

lemma advance_kept: "kept s (advance e t s)"
proof (cases "resizeTimeout s")
  case None
  then show ?thesis using fireOutputTimers_kept [of s e t] by (simp add: advance_def)
next
  case (Some r)
  let ?s1 = "fireOutputTimers e r s"
  let ?s2 = "resizeTimeoutFires e ?s1"
  have "kept s ?s1" by (rule fireOutputTimers_kept)
  moreover have "kept ?s1 ?s2" using resizeTimeoutFires_quiet by (rule quiet_kept)
  moreover have "kept ?s2 (fireOutputTimers e t ?s2)" by (rule fireOutputTimers_kept)
  ultimately have "kept s (fireOutputTimers e t ?s2)" using kept_trans by blast
  then show ?thesis
    using Some fireOutputTimers_kept [of s e t] by (simp add: advance_def)
qed

lemma advance_keeps:
  "ptyInput (advance e t s) = ptyInput s \<and> opened (advance e t s) = opened s
   \<and> killed (advance e t s) = killed s \<and> exited (advance e t s) = exited s
   \<and> lastFullRenderTime (advance e t s) = lastFullRenderTime s
   \<and> banners (stdout (advance e t s)) = banners (stdout s)"
  using advance_kept [of s e t] by (simp add: kept_def)

lemma run_snoc: "run e (evs @ [ev]) s = handle e (run e evs s) ev"
  by (simp add: run_def)


section \<open>Claims on the sanitizer\<close>

text \<open>
  C1. The claim: the sanitizer keeps exactly the allowed codes and drops every background
  form, the groups \<open>48;5;N\<close> and \<open>48;2;R;G;B\<close> as wholes. The code does not drop
  these groups as wholes: the test for 40-49 comes before the two tests for 48, so a 48 is
  skipped alone and the arguments of its group are scanned as codes of their own. With an
  argument that is itself an allowed code the output gains a style that the input never
  asked for: \<open>CSI 48;5;1 m\<close> becomes \<open>CSI 1 m\<close> (bold) and \<open>CSI 48;2;1;3;4 m\<close>
  becomes \<open>CSI 1;3;4 m\<close>. The example of the claim, whose palette index 236 is not a
  code, comes out as the claim says.
\<close>

theorem background_group_arguments_rescanned:
  "stripColors (csiM ''48;5;1'') = csiM ''1''
   \<and> stripColors (csiM ''48;2;1;3;4'') = csiM ''1;3;4''
   \<and> stripColors (csiM ''1;38;5;196;48;5;236'') = csiM ''1;38;5;196''"
  by code_simp

text \<open>
  C2. For every rendition token, the output of the sanitizer is empty or again a
  rendition token, and none of the codes it carries is a background, dim, inverse or
  hidden code; \<open>CSI 7 m\<close> becomes the empty string and \<open>CSI 0 m\<close> stays \<open>CSI 0 m\<close>.
\<close>

theorem sanitizer_output_safe:
  "isSgrToken t \<Longrightarrow>
     (stripColors t = [] \<or> isSgrToken (stripColors t))
     \<and> (\<forall>n \<in> set (sgrCodes (paramCodes (stripColors t))). \<not> unsafeCode n)
     \<and> stripColors (csiM ''7'') = []
     \<and> stripColors (csiM ''0'') = csiM ''0''"
proof -
  assume tok: "isSgrToken t"
  then obtain body where t: "t = csiM body" and b: "list_all isParamChar body"
    by (rule isSgrToken_obtain)
  have s1: "stripColors t = sgrReplace (csiM body)"
    using stripColors_token [OF tok] t by simp
  have shape: "(stripColors t = [] \<or> isSgrToken (stripColors t))
      \<and> (\<forall>n \<in> set (sgrCodes (paramCodes (stripColors t))). \<not> unsafeCode n)"
    using sgrReplace_shape [OF b]
  proof
    assume "sgrReplace (csiM body) = []"
    with s1 show ?thesis by (simp add: paramCodes_def slice2_def)
  next
    assume "\<exists>xs. xs \<noteq> [] \<and> (\<forall>p \<in> set xs. paramPiece p) \<and> filterCodes xs = xs
        \<and> (\<forall>n \<in> set (sgrCodes xs). \<not> unsafeCode n)
        \<and> sgrReplace (csiM body) = csiM (join (CHR '';'') xs)"
    then obtain xs where xs: "xs \<noteq> []" "\<forall>p \<in> set xs. paramPiece p"
      and safe: "\<forall>n \<in> set (sgrCodes xs). \<not> unsafeCode n"
      and r: "sgrReplace (csiM body) = csiM (join (CHR '';'') xs)"
      by blast
    have "isSgrToken (csiM (join (CHR '';'') xs))"
      using join_paramChars [OF xs(2)] by (simp add: isSgrToken_csiM)
    moreover have "paramCodes (csiM (join (CHR '';'') xs)) = xs"
      using xs by (rule paramCodes_join)
    ultimately show ?thesis using s1 r safe by simp
  qed
  have e1: "stripColors (csiM ''7'') = []" by code_simp
  have e2: "stripColors (csiM ''0'') = csiM ''0''" by code_simp
  from shape e1 e2 show ?thesis by blast
qed

theorem sanitizer_output_safe_witness:
  "isSgrToken (csiM ''1;7;48;5;236;38;5;7'')
   \<and> (stripColors (csiM ''1;7;48;5;236;38;5;7'') = []
        \<or> isSgrToken (stripColors (csiM ''1;7;48;5;236;38;5;7'')))
   \<and> stripColors (csiM ''1;7;48;5;236;38;5;7'') = csiM ''1;38;5;7''
   \<and> sgrCodes (paramCodes (stripColors (csiM ''1;7;48;5;236;38;5;7''))) = [1, 38]"
proof -
  have h: "isSgrToken (csiM ''1;7;48;5;236;38;5;7'')" by code_simp
  have shape: "stripColors (csiM ''1;7;48;5;236;38;5;7'') = []
      \<or> isSgrToken (stripColors (csiM ''1;7;48;5;236;38;5;7''))"
    by (rule conjunct1 [OF sanitizer_output_safe [OF h]])
  have out: "stripColors (csiM ''1;7;48;5;236;38;5;7'') = csiM ''1;38;5;7''" by code_simp
  have codes: "sgrCodes (paramCodes (stripColors (csiM ''1;7;48;5;236;38;5;7''))) = [1, 38]"
    by code_simp
  show ?thesis
    by (intro conjI) (rule h, rule shape, rule out, rule codes)
qed

text \<open>
  C3. The claim: a token with a truncated parameter group, such as \<open>38;5\<close> without its
  last parameter, is passed through unmodified. The code has no pass-through: the token
  \<open>CSI 38;5 m\<close> becomes the empty string.
\<close>

theorem truncated_group_not_passed_through:
  "stripColors (csiM ''38;5'') = [] \<and> stripColors (csiM ''38;5'') \<noteq> csiM ''38;5''"
  by code_simp

text \<open>
  C3, as the code has it. A 38 that does not start a complete group (\<open>5;N\<close> or
  \<open>2;R;G;B\<close>) is dropped like an unknown code, and the scan goes on with the parameter
  after it. So \<open>CSI 38;5 m\<close> becomes the empty string and \<open>CSI 1;38;5 m\<close> becomes
  \<open>CSI 1 m\<close>.
\<close>

theorem truncated_group_dropped:
  "parseInt c = Some 38 \<Longrightarrow>
   \<not> (codeAt (c # rest) 1 = Some ''5'' \<and> truthy (codeAt (c # rest) 2)) \<Longrightarrow>
   \<not> (codeAt (c # rest) 1 = Some ''2'' \<and> truthy (codeAt (c # rest) 4)) \<Longrightarrow>
     filterCodes (c # rest) = filterCodes rest
     \<and> stripColors (csiM ''38;5'') = []
     \<and> stripColors (csiM ''1;38;5'') = csiM ''1''"
proof -
  assume c: "parseInt c = Some 38"
    and n5: "\<not> (codeAt (c # rest) 1 = Some ''5'' \<and> truthy (codeAt (c # rest) 2))"
    and n2: "\<not> (codeAt (c # rest) 1 = Some ''2'' \<and> truthy (codeAt (c # rest) 4))"
  have "stepCode (c # rest) = ([], 1)"
    using c n5 n2 by (simp add: stepCode_def Let_def)
  then have "filterCodes (c # rest) = filterCodes rest"
    using filterCodes_step [of c rest "[]" 1] by simp
  moreover have "stripColors (csiM ''38;5'') = []" by code_simp
  moreover have "stripColors (csiM ''1;38;5'') = csiM ''1''" by code_simp
  ultimately show ?thesis by blast
qed

theorem truncated_group_dropped_witness:
  "filterCodes [''38'', ''5''] = filterCodes [''5''] \<and> filterCodes [''5''] = []"
proof -
  have h1: "parseInt ''38'' = Some 38" by simp
  have h2: "\<not> (codeAt [''38'', ''5''] 1 = Some ''5'' \<and> truthy (codeAt [''38'', ''5''] 2))"
    by simp
  have h3: "\<not> (codeAt [''38'', ''5''] 1 = Some ''2'' \<and> truthy (codeAt [''38'', ''5''] 4))"
    by simp
  have "filterCodes [''5''] = []" by code_simp
  with truncated_group_dropped [OF h1 h2 h3] show ?thesis by blast
qed

text \<open>
  C8. On a rendition token the sanitizer is idempotent. The theorem holds for every
  token, so in particular for those built from allowed codes only.
\<close>

theorem sanitizer_idempotent:
  "isSgrToken x \<Longrightarrow> stripColors (stripColors x) = stripColors x"
proof -
  assume tok: "isSgrToken x"
  then obtain body where x: "x = csiM body" and b: "list_all isParamChar body"
    by (rule isSgrToken_obtain)
  have s1: "stripColors x = sgrReplace (csiM body)"
    using stripColors_token [OF tok] x by simp
  from sgrReplace_shape [OF b] show ?thesis
  proof
    assume "sgrReplace (csiM body) = []"
    with s1 show ?thesis by simp
  next
    assume "\<exists>xs. xs \<noteq> [] \<and> (\<forall>p \<in> set xs. paramPiece p) \<and> filterCodes xs = xs
        \<and> (\<forall>n \<in> set (sgrCodes xs). \<not> unsafeCode n)
        \<and> sgrReplace (csiM body) = csiM (join (CHR '';'') xs)"
    then obtain xs where xs: "xs \<noteq> []" "\<forall>p \<in> set xs. paramPiece p" "filterCodes xs = xs"
      and r: "sgrReplace (csiM body) = csiM (join (CHR '';'') xs)"
      by blast
    have "isSgrToken (csiM (join (CHR '';'') xs))"
      using join_paramChars [OF xs(2)] by (simp add: isSgrToken_csiM)
    then have "stripColors (csiM (join (CHR '';'') xs)) = sgrReplace (csiM (join (CHR '';'') xs))"
      by (rule stripColors_token)
    also have "\<dots> = csiM (join (CHR '';'') xs)"
      by (rule sgrReplace_fixed [OF xs])
    finally show ?thesis using s1 r by simp
  qed
qed
theorem sanitizer_idempotent_witness:
  "isSgrToken (csiM ''1;38;5;196;22;39'')
   \<and> stripColors (stripColors (csiM ''1;38;5;196;22;39'')) = stripColors (csiM ''1;38;5;196;22;39'')
   \<and> stripColors (csiM ''1;38;5;196;22;39'') = csiM ''1;38;5;196;22;39''"
proof -
  have h: "isSgrToken (csiM ''1;38;5;196;22;39'')" by code_simp
  have e: "stripColors (csiM ''1;38;5;196;22;39'') = csiM ''1;38;5;196;22;39''" by code_simp
  from sanitizer_idempotent [OF h] h e show ?thesis by blast
qed

section \<open>Claims on the flush scheduler, the compositor and the session\<close>



text \<open>
  C5. The claim: on every flush each scroll region reset that names the full height of the
  terminal is rewritten to the content height. The rewriting is guarded by
  \<open>showFooter && !sshMode\<close>: in a remote session a flush leaves \<open>CSI 1;24 r\<close> as it
  is, on a terminal of 24 rows with one footer row.
\<close>

theorem remote_flush_keeps_full_height_reset:
  "termRows remoteEnv = 24 \<and> footerRows remoteEnv = 1 \<and> contentRows remoteEnv = 23
   \<and> showFooter remoteEnv
   \<and> stdout (processAndFlush remoteEnv 1000
        (init\<lparr>outputBuffer := [ESC] @ ''[1;24r'', startupCleared := True\<rparr>))
      = [Raw ([ESC] @ ''[1;24r'')]"
  by code_simp

text \<open>
  C5, as the code has it. With the footer enabled and the session not remote: the content
  height is \<open>max(1, terminalRows - footerRows)\<close>, where \<open>terminalRows\<close> is the height the
  terminal reports, or 24 when it reports none; \<open>setupScrollRegion\<close> sets the scroll
  region and the height of the PTY to it; and a flush writes the content-height region in
  the place of every reset that names the full height, the text before and after it going
  through the pipeline as it would alone. With 24 rows and one footer row the content
  height is 23 and \<open>CSI 1;24 r\<close> becomes \<open>CSI 1;23 r\<close>.
\<close>

theorem full_height_reset_rewritten:
  assumes "showFooter e" and "\<not> sshMode e" and "\<not> exiting s"
    and "outputBuffer s = a @ region (termRows e) @ b"
  shows "int (contentRows e) = max 1 (int (termRows e) - int (footerRows e))
    \<and> setupScrollRegion e
        = ([csiR @ saveCursor @ region (contentRows e) @ restoreCursor],
           (termCols e, contentRows e))
    \<and> stdout (processAndFlush e now s)
        = stdout s @ [Raw (startupPrefix e (startupCleared s) @ flushBody e a
                           @ region (contentRows e) @ flushBody e b)]
    \<and> (termRows e = 24 \<and> footerRows e = 1 \<longrightarrow>
          contentRows e = 23
          \<and> flushOutput e True ([ESC] @ ''[1;24r'') = [ESC] @ ''[1;23r'')"
proof -
  have inv: "int (contentRows e) = max 1 (int (termRows e) - int (footerRows e))"
    by (simp add: contentRows_def)
  have regionSet: "setupScrollRegion e
        = ([csiR @ saveCursor @ region (contentRows e) @ restoreCursor],
           (termCols e, contentRows e))"
    using assms(1,2) by (simp add: setupScrollRegion_def Let_def)
  have ne: "outputBuffer s \<noteq> []" using assms(4) by (simp add: region_def)
  have flush: "stdout (processAndFlush e now s)
        = stdout s @ [Raw (startupPrefix e (startupCleared s) @ flushBody e a
                           @ region (contentRows e) @ flushBody e b)]"
    using processAndFlush_stdout [OF ne assms(3), of e now] assms(4)
      flushBody_full [OF assms(1,2), of a b]
    by (simp add: flushOutput_def)
  have ex: "contentRows e = 23 \<and> flushOutput e True ([ESC] @ ''[1;24r'') = [ESC] @ ''[1;23r''"
    if t: "termRows e = 24" and f: "footerRows e = 1"
  proof -
    have c: "contentRows e = 23" using t f by (simp add: contentRows_def)
    have "flushBody e ([] @ region (termRows e) @ []) = flushBody e [] @ region (contentRows e) @ flushBody e []"
      using assms(1,2) by (rule flushBody_full)
    then have "flushBody e (region 24) = region 23" using t c by simp
    then show ?thesis using c by (simp add: flushOutput_def startupPrefix_def region_24 region_23)
  qed
  from inv regionSet flush ex show ?thesis by blast
qed

theorem full_height_reset_rewritten_witness:
  "contentRows exampleEnv = 23
   \<and> stdout (processAndFlush exampleEnv 1000
        (init\<lparr>outputBuffer := ''ab'' @ [ESC] @ ''[1;24r'' @ ''cd'', startupCleared := True\<rparr>))
      = [Raw (''ab'' @ [ESC] @ ''[1;23r'' @ ''cd'')]"
proof -
  let ?s = "init\<lparr>outputBuffer := ''ab'' @ [ESC] @ ''[1;24r'' @ ''cd'', startupCleared := True\<rparr>"
  have h1: "showFooter exampleEnv" by (simp add: exampleEnv_def)
  have h2: "\<not> sshMode exampleEnv" by (simp add: exampleEnv_def)
  have h3: "\<not> exiting ?s" by (simp add: init_def)
  have r: "region (termRows exampleEnv) = [ESC] @ ''[1;24r''" by code_simp
  have h4: "outputBuffer ?s = ''ab'' @ region (termRows exampleEnv) @ ''cd''"
    unfolding r by simp
  note t = full_height_reset_rewritten [OF h1 h2 h3 h4, of 1000]
  have w: "stdout (processAndFlush exampleEnv 1000 ?s)
      = stdout ?s @ [Raw (startupPrefix exampleEnv (startupCleared ?s) @ flushBody exampleEnv ''ab''
                           @ region (contentRows exampleEnv) @ flushBody exampleEnv ''cd'')]"
    by (rule conjunct1 [OF conjunct2 [OF conjunct2 [OF t]]])
  have e: "stdout ?s @ [Raw (startupPrefix exampleEnv (startupCleared ?s) @ flushBody exampleEnv ''ab''
                           @ region (contentRows exampleEnv) @ flushBody exampleEnv ''cd'')]
      = [Raw (''ab'' @ [ESC] @ ''[1;23r'' @ ''cd'')]"
    by code_simp
  have c: "contentRows exampleEnv = 23" by code_simp
  show ?thesis by (rule conjI [OF c trans [OF w e]])
qed

text \<open>
  C10. With the footer enabled and the session not remote, a flush writes the
  content-height region \<open>ESC [ 1;contentRows r\<close> in the place of every bare reset
  \<open>ESC [ r\<close> of the buffered output; the text before and after it goes through the
  pipeline as it would alone.
\<close>

theorem bare_reset_rewritten:
  assumes "showFooter e" and "\<not> sshMode e" and "\<not> exiting s"
    and "outputBuffer s = a @ csiR @ b"
  shows "stdout (processAndFlush e now s)
        = stdout s @ [Raw (startupPrefix e (startupCleared s) @ flushBody e a
                           @ region (contentRows e) @ flushBody e b)]"
proof -
  have ne: "outputBuffer s \<noteq> []" using assms(4) by (simp add: csiR_def)
  show ?thesis
    using processAndFlush_stdout [OF ne assms(3), of e now] assms(4)
      flushBody_csiR [OF assms(1,2), of a b]
    by (simp add: flushOutput_def)
qed

theorem bare_reset_rewritten_witness:
  "stdout (processAndFlush exampleEnv 1000
        (init\<lparr>outputBuffer := ''ab'' @ [ESC] @ ''[r'' @ ''cd'', startupCleared := True\<rparr>))
      = [Raw (''ab'' @ [ESC] @ ''[1;23r'' @ ''cd'')]"
proof -
  let ?s = "init\<lparr>outputBuffer := ''ab'' @ [ESC] @ ''[r'' @ ''cd'', startupCleared := True\<rparr>"
  have h1: "showFooter exampleEnv" by (simp add: exampleEnv_def)
  have h2: "\<not> sshMode exampleEnv" by (simp add: exampleEnv_def)
  have h3: "\<not> exiting ?s" by (simp add: init_def)
  have h4: "outputBuffer ?s = ''ab'' @ csiR @ ''cd''" by (simp add: csiR_def)
  note w = bare_reset_rewritten [OF h1 h2 h3 h4, of 1000]
  have e: "stdout ?s @ [Raw (startupPrefix exampleEnv (startupCleared ?s) @ flushBody exampleEnv ''ab''
                           @ region (contentRows exampleEnv) @ flushBody exampleEnv ''cd'')]
      = [Raw (''ab'' @ [ESC] @ ''[1;23r'' @ ''cd'')]"
    by code_simp
  show ?thesis by (rule trans [OF w e])
qed




text \<open>
  C7. The claim: a chunk that arrives less than the recency threshold after the last
  full-repaint flush is scheduled at the extended delay. The code compares the time with
  \<open>lastFullRenderTime\<close>, which no handler ever sets: it stays 0 through every event, so
  a chunk that arrives 10 ms after a flush of a full repaint is scheduled at
  \<open>FLUSH_DELAY_MS\<close>, not at \<open>COALESCE_DELAY_MS\<close>.
\<close>

theorem full_render_time_never_recorded:
  "lastFullRenderTime (handle e s ev) = lastFullRenderTime s
   \<and> contentWrites (stdout (run exampleEnv
        [(1000000, PtyData (clearScreen @ cursorHome @ ''hello'')), (1000016, Tick)] init))
      = [clearScreen @ clearScrollback @ cursorHome
         @ clearScreen @ clearScrollback @ cursorHome @ ''hello'']
   \<and> flushTimer (run exampleEnv
        [(1000000, PtyData (clearScreen @ cursorHome @ ''hello'')), (1000016, Tick),
         (1000026, PtyData ''x'')] init)
      = Some (1000026 + FLUSH_DELAY_MS)"
proof -
  obtain t ev' where ev: "ev = (t, ev')" by (cases ev)
  have k: "lastFullRenderTime (advance e t s) = lastFullRenderTime s"
    using advance_keeps [of e t s] by simp
  have g: "lastFullRenderTime (handle e s ev) = lastFullRenderTime s"
    unfolding ev using k
    by (cases ev')
       (simp_all add: Let_def onData_def stdinData_def cleanupAndKill_def onExit_def
          onSigwinch_def onStdoutResize_def runSetupScrollRegion_def drawFooter_def
          split: prod.splits)
  let ?big = "clearScreen @ cursorHome @ ''hello''"
  have f: "flushOutput exampleEnv False ?big
      = clearScreen @ clearScrollback @ cursorHome
         @ clearScreen @ clearScrollback @ cursorHome @ ''hello''"
    by code_simp
  have s1: "run exampleEnv [(1000000, PtyData ?big)] init
      = init\<lparr>outputBuffer := ?big, flushTimer := Some 1000016\<rparr>"
    by (simp add: run_def advance_def fireOutputTimers_def fireDraw_def fireFlush_def
        onData_def init_def Let_def FLUSH_DELAY_MS_def COALESCE_DELAY_MS_def)
  have ne: "?big \<noteq> []" by (simp add: clearScreen_def)
  have s2: "run exampleEnv [(1000000, PtyData ?big), (1000016, Tick)] init
      = init\<lparr>startupCleared := True, stdout := [Raw (flushOutput exampleEnv False ?big)],
             pendingDraw := Some 1000048\<rparr>"
    using run_snoc [of exampleEnv "[(1000000, PtyData ?big)]" "(1000016, Tick)" init] ne
    unfolding append_Cons append_Nil s1
    by (simp add: advance_def fireOutputTimers_def fireDraw_def fireFlush_def
        processAndFlush_def scheduleFooterDraw_def init_def Let_def exampleEnv_def
        DEBOUNCE_MS_def)
  have w: "contentWrites (stdout (run exampleEnv [(1000000, PtyData ?big), (1000016, Tick)] init))
      = [clearScreen @ clearScrollback @ cursorHome
         @ clearScreen @ clearScrollback @ cursorHome @ ''hello'']"
    unfolding s2 using f by simp
  have s3: "flushTimer (run exampleEnv
        [(1000000, PtyData ?big), (1000016, Tick), (1000026, PtyData ''x'')] init)
      = Some (1000026 + FLUSH_DELAY_MS)"
    using run_snoc [of exampleEnv "[(1000000, PtyData ?big), (1000016, Tick)]"
        "(1000026, PtyData ''x'')" init]
    unfolding append_Cons append_Nil s2
    by (simp add: advance_def fireOutputTimers_def fireDraw_def fireFlush_def onData_def
        pendingDrawFires_def drawFooter_def init_def Let_def FLUSH_DELAY_MS_def
        COALESCE_DELAY_MS_def)
  from g w s3 show ?thesis by blast
qed

text \<open>
  C9. The claim: every chunk of keyboard bytes is forwarded except the one reserved
  hotkey sequence. The handler consumes three sequences, not one: \<open>ESC [ 72;6u\<close>,
  \<open>ESC [ 104;6u\<close> and the single byte 0x08.
\<close>

theorem three_sequences_consumed:
  "ptyInput (stdinData ([ESC] @ ''[72;6u'') init) = []
   \<and> ptyInput (stdinData ([ESC] @ ''[104;6u'') init) = []
   \<and> ptyInput (stdinData [CHR 0x08] init) = []
   \<and> [ESC] @ ''[104;6u'' \<noteq> [ESC] @ ''[72;6u''
   \<and> [CHR 0x08] \<noteq> [ESC] @ ''[72;6u''
   \<and> [CHR 0x08] \<noteq> [ESC] @ ''[104;6u''"
  by (simp add: stdinData_def init_def)

text \<open>
  C9, as the code has it. A chunk of keyboard bytes is forwarded to the wrapped process
  as it is, unless the whole chunk is one of the three sequences \<open>ESC [ 72;6u\<close>,
  \<open>ESC [ 104;6u\<close> and 0x08; such a chunk is not forwarded and opens the website.
\<close>

theorem stdin_forwarded_except_hotkeys:
  assumes "exited s = None"
  shows "ptyInput (handle e s (t, StdinData d))
      = (if d = [ESC] @ ''[72;6u'' \<or> d = [ESC] @ ''[104;6u'' \<or> d = [CHR 0x08]
         then ptyInput s else ptyInput s @ [d])
    \<and> opened (handle e s (t, StdinData d))
      = (if d = [ESC] @ ''[72;6u'' \<or> d = [ESC] @ ''[104;6u'' \<or> d = [CHR 0x08]
         then opened s + 1 else opened s)"
proof -
  have "handle e s (t, StdinData d) = stdinData d (advance e t s)"
    using assms by (simp add: Let_def)
  then show ?thesis
    using advance_keeps [of e t s] by (simp add: stdinData_def)
qed

theorem stdin_forwarded_except_hotkeys_witness:
  "ptyInput (handle exampleEnv init (1000, StdinData ''ls'')) = [''ls'']
   \<and> ptyInput (handle exampleEnv init (1000, StdinData [CHR 0x08])) = []
   \<and> opened (handle exampleEnv init (1000, StdinData [CHR 0x08])) = 1"
proof -
  have h: "exited init = None" by (simp add: init_def)
  note a = stdin_forwarded_except_hotkeys [OF h, of exampleEnv 1000 "''ls''"]
  note b = stdin_forwarded_except_hotkeys [OF h, of exampleEnv 1000 "[CHR 0x08]"]
  have a1: "ptyInput (handle exampleEnv init (1000, StdinData ''ls'')) = [''ls'']"
    using conjunct1 [OF a] by (simp add: init_def)
  have b1: "ptyInput (handle exampleEnv init (1000, StdinData [CHR 0x08])) = []"
    using conjunct1 [OF b] by (simp add: init_def)
  have b2: "opened (handle exampleEnv init (1000, StdinData [CHR 0x08])) = 1"
    using conjunct2 [OF b] by (simp add: init_def)
  show ?thesis by (intro conjI) (rule a1, rule b1, rule b2)
qed

end
